theory Spec2Isabelle
  imports Main "HOL-Library.Multiset"
begin

section \<open>The Sudoku CSP solver of \<open>main.py\<close>\<close>

text \<open>
  The class \<open>SudokuCSP\<close> keeps one field that changes, \<open>self.grid\<close>: a list of nine
  row lists of Python integers, \<open>0\<close> for an empty cell. The fields \<open>self.size = 9\<close> and
  \<open>self.box_size = 3\<close> are assigned once in \<open>__init__\<close> and never again; they are the
  constants \<open>9\<close> and \<open>3\<close> below (the box arithmetic of \<open>is_valid\<close> has the \<open>3\<close> written
  out in the source as well).

  Cell values are unbounded integers (\<open>int\<close>). Row and column indices are natural
  numbers: the solver itself indexes only with the values of \<open>range(9)\<close>, and the from-the-end
  reading that Python gives a negative index is outside this model. An index beyond the end
  of a list raises \<open>IndexError\<close> in Python; that is the value \<open>Inl IndexError\<close> here.
\<close>

subsection \<open>Data\<close>

datatype error = IndexError

type_synonym grid = "int list list"

text \<open>\<open>xs[i]\<close>\<close>

definition getitem :: "'a list \<Rightarrow> nat \<Rightarrow> error + 'a" where
  "getitem xs i = (if i < length xs then Inr (xs ! i) else Inl IndexError)"

text \<open>\<open>self.grid[r][c]\<close>\<close>

definition cell :: "grid \<Rightarrow> nat \<Rightarrow> nat \<Rightarrow> error + int" where
  "cell g r c = (case getitem g r of Inl e \<Rightarrow> Inl e | Inr rw \<Rightarrow> getitem rw c)"

subsection \<open>\<open>is_valid\<close>\<close>

text \<open>
  The comprehension \<open>[self.grid[r][col] for r in range(self.size)]\<close>: the whole list is
  built (and may raise) before the membership test looks at it.
\<close>

fun column :: "grid \<Rightarrow> nat \<Rightarrow> nat list \<Rightarrow> error + int list" where
  "column g col [] = Inr []"
| "column g col (r # rs) =
     (case cell g r col of
        Inl e \<Rightarrow> Inl e
      | Inr v \<Rightarrow> (case column g col rs of Inl e \<Rightarrow> Inl e | Inr vs \<Rightarrow> Inr (v # vs)))"

text \<open>
  The two nested \<open>for\<close> loops over the box, run over the cells in the order the loops
  visit them; the first cell equal to \<open>num\<close> returns \<open>False\<close> at once.
\<close>

fun box_scan :: "grid \<Rightarrow> int \<Rightarrow> (nat \<times> nat) list \<Rightarrow> error + bool" where
  "box_scan g num [] = Inr True"
| "box_scan g num ((r, c) # rcs) =
     (case cell g r c of
        Inl e \<Rightarrow> Inl e
      | Inr v \<Rightarrow> if v = num then Inr False else box_scan g num rcs)"

definition is_valid :: "grid \<Rightarrow> nat \<Rightarrow> nat \<Rightarrow> int \<Rightarrow> error + bool" where
  "is_valid g row col num =
     (case getitem g row of
        Inl e \<Rightarrow> Inl e
      | Inr rw \<Rightarrow>
          if num \<in> set rw then Inr False
          else (case column g col [0..<9] of
                  Inl e \<Rightarrow> Inl e
                | Inr cl \<Rightarrow>
                    if num \<in> set cl then Inr False
                    else (let box_row = (row div 3) * 3; box_col = (col div 3) * 3
                          in box_scan g num
                               (List.product [box_row..<box_row + 3] [box_col..<box_col + 3]))))"

subsection \<open>\<open>get_domain\<close>\<close>

text \<open>The comprehension \<open>[num for num in nums if self.is_valid(row, col, num)]\<close>.\<close>

fun domain_filter :: "grid \<Rightarrow> nat \<Rightarrow> nat \<Rightarrow> int list \<Rightarrow> error + int list" where
  "domain_filter g row col [] = Inr []"
| "domain_filter g row col (num # nums) =
     (case is_valid g row col num of
        Inl e \<Rightarrow> Inl e
      | Inr b \<Rightarrow> (case domain_filter g row col nums of
                   Inl e \<Rightarrow> Inl e
                 | Inr ds \<Rightarrow> Inr (if b then num # ds else ds)))"

definition get_domain :: "grid \<Rightarrow> nat \<Rightarrow> nat \<Rightarrow> error + int list" where
  "get_domain g row col =
     (case cell g row col of
        Inl e \<Rightarrow> Inl e
      | Inr v \<Rightarrow> if v \<noteq> 0 then Inr [] else domain_filter g row col [1..9])"

subsection \<open>\<open>find_mrv_cell\<close>\<close>

text \<open>
  The double loop over \<open>range(9)\<close>, in row-major order, with the two loop variables
  \<open>min_domain_size\<close> and \<open>best_cell\<close> as the accumulator.
\<close>

fun mrv_scan :: "grid \<Rightarrow> (nat \<times> nat) list \<Rightarrow> nat \<times> (nat \<times> nat \<times> int list) option
    \<Rightarrow> error + (nat \<times> (nat \<times> nat \<times> int list) option)" where
  "mrv_scan g [] acc = Inr acc"
| "mrv_scan g ((row, col) # rcs) (min_domain_size, best_cell) =
     (case cell g row col of
        Inl e \<Rightarrow> Inl e
      | Inr v \<Rightarrow>
          if v = 0 then
            (case get_domain g row col of
               Inl e \<Rightarrow> Inl e
             | Inr domain \<Rightarrow>
                 if length domain < min_domain_size
                 then mrv_scan g rcs (length domain, Some (row, col, domain))
                 else mrv_scan g rcs (min_domain_size, best_cell))
          else mrv_scan g rcs (min_domain_size, best_cell))"

definition cells9 :: "(nat \<times> nat) list" where
  "cells9 = List.product [0..<9] [0..<9]"

definition find_mrv_cell :: "grid \<Rightarrow> error + (nat \<times> nat \<times> int list) option" where
  "find_mrv_cell g =
     (case mrv_scan g cells9 (10, None) of
        Inl e \<Rightarrow> Inl e
      | Inr (min_domain_size, best_cell) \<Rightarrow> Inr best_cell)"

subsection \<open>Well-formed grids\<close>

definition wf_grid :: "grid \<Rightarrow> bool" where
  "wf_grid g = (length g = 9 \<and> list_all (\<lambda>rw. length rw = 9) g)"

subsection \<open>The store: list objects and references to them\<close>

text \<open>
  A Python list of lists is a list object whose items are references to the row objects,
  and \<open>self.grid[row][col] = num\<close> writes into the row object that \<open>self.grid[row]\<close>
  refers to: everyone who holds a reference to that row sees the write. The store keeps the
  row objects; an address is an index into it and allocation appends a new object. The outer
  list of a grid is never assigned to anywhere in the program (neither \<open>self.grid[row] = ...\<close>
  nor \<open>puzzle[row] = ...\<close> occurs), so a grid object is the list of its row addresses.
  References are created by allocation only, so they never dangle.
\<close>

type_synonym addr = nat

type_synonym heap = "int list list"

text \<open>The contents of a grid object: what reading \<open>grid[r][c]\<close> through the store sees.\<close>

definition view :: "heap \<Rightarrow> addr list \<Rightarrow> grid" where
  "view h rows = map (\<lambda>a. h ! a) rows"

text \<open>
  \<open>__init__\<close>: \<open>self.grid = [row[:] for row in grid]\<close>. Each slice \<open>row[:]\<close> allocates a
  new list with the items of \<open>row\<close>; the result is the list of the new addresses. (The other
  two assignments of \<open>__init__\<close> set the constants \<open>size\<close> and \<open>box_size\<close>.)
\<close>

fun copy_rows :: "heap \<Rightarrow> addr list \<Rightarrow> heap \<times> addr list" where
  "copy_rows h [] = (h, [])"
| "copy_rows h (a # as) =
     (case copy_rows (h @ [h ! a]) as of (h', bs) \<Rightarrow> (h', length h # bs))"

definition init :: "heap \<Rightarrow> addr list \<Rightarrow> heap \<times> addr list" where
  "init h grid = copy_rows h grid"

text \<open>\<open>self.grid[row][col] = v\<close>\<close>

definition setitem :: "heap \<Rightarrow> addr list \<Rightarrow> nat \<Rightarrow> nat \<Rightarrow> int \<Rightarrow> error + heap" where
  "setitem h self row col v =
     (case getitem self row of
        Inl e \<Rightarrow> Inl e
      | Inr a \<Rightarrow>
          if col < length (h ! a) then Inr (h[a := (h ! a)[col := v]]) else Inl IndexError)"

subsection \<open>\<open>solve\<close>\<close>

text \<open>
  \<open>solve\<close> calls itself inside its \<open>for\<close> loop, on the grid that the calls before have
  left behind. The first argument \<open>d\<close> is the number of nested recursive calls still
  allowed: a call that would go deeper gives \<open>None\<close>. Otherwise the result is
  \<open>Some (Inl e)\<close> for a raised exception and \<open>Some (Inr (b, h'))\<close> for the returned
  Boolean \<open>b\<close> and the store \<open>h'\<close> at the return. \<open>try_values\<close> is the \<open>for num in domain\<close>
  loop, started on the values still to be tried.
\<close>

fun solve :: "nat \<Rightarrow> heap \<Rightarrow> addr list \<Rightarrow> (error + bool \<times> heap) option"
  and try_values :: "nat \<Rightarrow> heap \<Rightarrow> addr list \<Rightarrow> nat \<Rightarrow> nat \<Rightarrow> int list
    \<Rightarrow> (error + bool \<times> heap) option" where
  "solve d h self =
     (case find_mrv_cell (view h self) of
        Inl e \<Rightarrow> Some (Inl e)
      | Inr None \<Rightarrow> Some (Inr (True, h))
      | Inr (Some (row, col, domain)) \<Rightarrow>
          if domain = [] then Some (Inr (False, h))
          else try_values d h self row col domain)"
| "try_values d h self row col [] = Some (Inr (False, h))"
| "try_values d h self row col (num # nums) =
     (case setitem h self row col num of
        Inl e \<Rightarrow> Some (Inl e)
      | Inr h1 \<Rightarrow>
          (case d of
             0 \<Rightarrow> None
           | Suc d' \<Rightarrow>
               (case solve d' h1 self of
                  None \<Rightarrow> None
                | Some (Inl e) \<Rightarrow> Some (Inl e)
                | Some (Inr (True, h2)) \<Rightarrow> Some (Inr (True, h2))
                | Some (Inr (False, h2)) \<Rightarrow>
                    (case setitem h2 self row col 0 of
                       Inl e \<Rightarrow> Some (Inl e)
                     | Inr h3 \<Rightarrow> try_values d h3 self row col nums))))"

text \<open>
  The same run, recording the store after every assignment \<open>self.grid[row][col] = ...\<close>
  (placements and undos) in the order they happen.
\<close>

fun solve_trace :: "nat \<Rightarrow> heap \<Rightarrow> addr list \<Rightarrow> heap list"
  and try_values_trace :: "nat \<Rightarrow> heap \<Rightarrow> addr list \<Rightarrow> nat \<Rightarrow> nat \<Rightarrow> int list
    \<Rightarrow> heap list" where
  "solve_trace d h self =
     (case find_mrv_cell (view h self) of
        Inl e \<Rightarrow> []
      | Inr None \<Rightarrow> []
      | Inr (Some (row, col, domain)) \<Rightarrow>
          if domain = [] then [] else try_values_trace d h self row col domain)"
| "try_values_trace d h self row col [] = []"
| "try_values_trace d h self row col (num # nums) =
     (case setitem h self row col num of
        Inl e \<Rightarrow> []
      | Inr h1 \<Rightarrow>
          h1 # (case d of
             0 \<Rightarrow> []
           | Suc d' \<Rightarrow>
               solve_trace d' h1 self @
               (case solve d' h1 self of
                  Some (Inr (False, h2)) \<Rightarrow>
                    (case setitem h2 self row col 0 of
                       Inl e \<Rightarrow> []
                     | Inr h3 \<Rightarrow> h3 # try_values_trace d h3 self row col nums)
                | _ \<Rightarrow> [])))"

subsection \<open>The notions of the specification\<close>

text \<open>
  A solver object is well formed when its grid has nine rows, each a list object of its own
  with nine items: the state \<open>__init__\<close> produces from a 9x9 grid.
\<close>

definition wf_solver :: "heap \<Rightarrow> addr list \<Rightarrow> bool" where
  "wf_solver h self =
     (length self = 9 \<and> distinct self \<and> list_all (\<lambda>a. a < length h \<and> length (h ! a) = 9) self)"

definition cell_at :: "grid \<Rightarrow> nat \<times> nat \<Rightarrow> int" where
  "cell_at g p = g ! fst p ! snd p"

text \<open>The 27 units: nine rows, nine columns, nine 3x3 boxes, each as the list of its cells.\<close>

definition row_cells :: "nat \<Rightarrow> (nat \<times> nat) list" where
  "row_cells r = map (Pair r) [0..<9]"

definition col_cells :: "nat \<Rightarrow> (nat \<times> nat) list" where
  "col_cells c = map (\<lambda>r. (r, c)) [0..<9]"

definition box_cells :: "nat \<Rightarrow> nat \<Rightarrow> (nat \<times> nat) list" where
  "box_cells br bc = List.product [br * 3..<br * 3 + 3] [bc * 3..<bc * 3 + 3]"

definition unit_cells :: "(nat \<times> nat) list list" where
  "unit_cells = map row_cells [0..<9] @ map col_cells [0..<9] @
     map (\<lambda>(br, bc). box_cells br bc) (List.product [0..<3] [0..<3])"

text \<open>
  The uniqueness invariant: every non-zero value appears at most once per row, per column
  and per box.
\<close>

definition grid_inv :: "grid \<Rightarrow> bool" where
  "grid_inv g = list_all (\<lambda>u. distinct (filter (\<lambda>v. v \<noteq> 0) (map (cell_at g) u))) unit_cells"

text \<open>A complete valid Sudoku: every row, column and box is a permutation of 1..9.\<close>

definition solved :: "grid \<Rightarrow> bool" where
  "solved g = list_all (\<lambda>u. mset (map (cell_at g) u) = mset [1..9]) unit_cells"

text \<open>The number of empty cells.\<close>

definition empties :: "grid \<Rightarrow> nat" where
  "empties g = length (filter (\<lambda>p. cell_at g p = 0) cells9)"

text \<open>\<open>s\<close> is a legal completion of \<open>g\<close>: a complete valid Sudoku that keeps every filled cell of \<open>g\<close>.\<close>

definition keeps :: "grid \<Rightarrow> grid \<Rightarrow> bool" where
  "keeps g s = list_all (\<lambda>p. cell_at g p = 0 \<or> cell_at s p = cell_at g p) cells9"

definition completion :: "grid \<Rightarrow> grid \<Rightarrow> bool" where
  "completion g s = (wf_grid s \<and> solved s \<and> keeps g s)"

text \<open>
  A 9x9 grid object in the store, as a caller passes it to \<open>SudokuCSP(...)\<close>: nine references
  to rows of nine items (two of them may be the same row object), and its entries are
  digits 0..9.
\<close>

definition grid9 :: "heap \<Rightarrow> addr list \<Rightarrow> bool" where
  "grid9 h grid = (length grid = 9 \<and> list_all (\<lambda>a. a < length h \<and> length (h ! a) = 9) grid)"

definition digits :: "grid \<Rightarrow> bool" where
  "digits g = list_all (\<lambda>p. 0 \<le> cell_at g p \<and> cell_at g p \<le> 9) cells9"

subsection \<open>Auxiliary notions for the proofs\<close>

text \<open>The value \<open>num\<close> occurs neither in the row, nor in the column, nor in the box of a cell.\<close>

definition conflict_free :: "grid \<Rightarrow> nat \<Rightarrow> nat \<Rightarrow> int \<Rightarrow> bool" where
  "conflict_free g row col num =
     ((\<forall>c<9. g ! row ! c \<noteq> num) \<and> (\<forall>r<9. g ! r ! col \<noteq> num) \<and>
      (\<forall>r\<in>{row div 3 * 3..<row div 3 * 3 + 3}.
         \<forall>c\<in>{col div 3 * 3..<col div 3 * 3 + 3}. g ! r ! c \<noteq> num))"

definition domain_of :: "grid \<Rightarrow> nat \<Rightarrow> nat \<Rightarrow> int list" where
  "domain_of g row col = filter (conflict_free g row col) [1..9]"

definition dsize :: "grid \<Rightarrow> nat \<times> nat \<Rightarrow> nat" where
  "dsize g p = length (domain_of g (fst p) (snd p))"

text \<open>
  \<open>q\<close> is the first cell of the scan \<open>ps\<close> that is empty and has the least domain size, and
  that size is below the bound \<open>m\<close>.
\<close>

definition mrv_pick :: "grid \<Rightarrow> (nat \<times> nat) list \<Rightarrow> nat \<Rightarrow> nat \<times> nat \<Rightarrow> bool" where
  "mrv_pick g ps m q =
     (\<exists>pre post. ps = pre @ q # post \<and> cell_at g q = 0 \<and> dsize g q < m \<and>
        (\<forall>q'\<in>set pre. cell_at g q' = 0 \<longrightarrow> dsize g q < dsize g q') \<and>
        (\<forall>q'\<in>set post. cell_at g q' = 0 \<longrightarrow> dsize g q \<le> dsize g q'))"

definition mrv_res :: "grid \<Rightarrow> (nat \<times> nat) list \<Rightarrow> nat \<times> (nat \<times> nat \<times> int list) option
    \<Rightarrow> nat \<times> (nat \<times> nat \<times> int list) option \<Rightarrow> bool" where
  "mrv_res g ps acc res =
     ((res = acc \<and> (\<forall>q\<in>set ps. cell_at g q = 0 \<longrightarrow> fst acc \<le> dsize g q)) \<or>
      (\<exists>q. mrv_pick g ps (fst acc) q \<and>
           res = (dsize g q, Some (fst q, snd q, domain_of g (fst q) (snd q)))))"

text \<open>The grid with one cell replaced, and the store after the same write through \<open>self\<close>.\<close>

definition gset :: "grid \<Rightarrow> nat \<Rightarrow> nat \<Rightarrow> int \<Rightarrow> grid" where
  "gset g r c v = g[r := (g ! r)[c := v]]"

definition place :: "heap \<Rightarrow> addr list \<Rightarrow> nat \<Rightarrow> nat \<Rightarrow> int \<Rightarrow> heap" where
  "place h self r c v = h[self ! r := (h ! (self ! r))[c := v]]"

text \<open>Row-major order of cells: the order in which \<open>find_mrv_cell\<close> scans them.\<close>

definition lex_less :: "nat \<times> nat \<Rightarrow> nat \<times> nat \<Rightarrow> bool" where
  "lex_less p q = (fst p < fst q \<or> (fst p = fst q \<and> snd p < snd q))"

text \<open>Two cells share a row, a column or a box.\<close>

definition same_unit :: "nat \<times> nat \<Rightarrow> nat \<times> nat \<Rightarrow> bool" where
  "same_unit p q = (fst p = fst q \<or> snd p = snd q \<or>
     (fst p div 3 = fst q div 3 \<and> snd p div 3 = snd q div 3))"

text \<open>
  The loop \<open>for num in domain\<close> is entered at an empty cell of the grid, with values of 1..9
  that conflict with nothing in the cell's row, column and box.
\<close>

definition cand :: "grid \<Rightarrow> nat \<Rightarrow> nat \<Rightarrow> int list \<Rightarrow> bool" where
  "cand g r c nums =
     (r < 9 \<and> c < 9 \<and> cell_at g (r, c) = 0 \<and>
      (\<forall>n\<in>set nums. 1 \<le> n \<and> n \<le> 9 \<and> conflict_free g r c n))"

text \<open>
  \<open>g'\<close> fills \<open>g\<close>: no cell of \<open>g'\<close> is empty, the filled cells of \<open>g\<close> are unchanged, the
  others hold digits of 1..9, and the invariant of \<open>g\<close> is that of \<open>g'\<close>.
\<close>

definition fills :: "grid \<Rightarrow> grid \<Rightarrow> bool" where
  "fills g g' =
     ((\<forall>p\<in>set cells9. cell_at g' p \<noteq> 0) \<and>
      (\<forall>p\<in>set cells9. cell_at g p \<noteq> 0 \<longrightarrow> cell_at g' p = cell_at g p) \<and>
      (\<forall>p\<in>set cells9. cell_at g p = 0 \<longrightarrow> 1 \<le> cell_at g' p \<and> cell_at g' p \<le> 9) \<and>
      (grid_inv g \<longrightarrow> grid_inv g'))"

text \<open>What a returning call of \<open>solve\<close> leaves behind.\<close>

definition solve_post :: "heap \<Rightarrow> addr list \<Rightarrow> bool \<Rightarrow> heap \<Rightarrow> bool" where
  "solve_post h self b h' =
     (wf_solver h' self \<and> length h' = length h \<and> (\<forall>a. a \<notin> set self \<longrightarrow> h' ! a = h ! a) \<and>
      (\<not> b \<longrightarrow> h' = h) \<and> (b \<longrightarrow> fills (view h self) (view h' self)))"

text \<open>
  What holds of every store \<open>h''\<close> that a run of \<open>solve\<close> started in \<open>h\<close> passes through:
  the filled cells of the start are untouched and the invariant of the start is kept.
\<close>

definition step_ok :: "heap \<Rightarrow> addr list \<Rightarrow> heap \<Rightarrow> bool" where
  "step_ok h self h'' =
     (wf_solver h'' self \<and>
      (\<forall>p\<in>set cells9. cell_at (view h self) p \<noteq> 0 \<longrightarrow>
         cell_at (view h'' self) p = cell_at (view h self) p) \<and>
      (grid_inv (view h self) \<longrightarrow> grid_inv (view h'' self)))"

subsection \<open>Concrete grids\<close>

text \<open>A complete valid Sudoku, and the same grid with the cells (0,2), (0,3), (4,4) emptied.\<close>

definition solution9 :: grid where
  "solution9 = [
     [5, 3, 4, 6, 7, 8, 9, 1, 2],
     [6, 7, 2, 1, 9, 5, 3, 4, 8],
     [1, 9, 8, 3, 4, 2, 5, 6, 7],
     [8, 5, 9, 7, 6, 1, 4, 2, 3],
     [4, 2, 6, 8, 5, 3, 7, 9, 1],
     [7, 1, 3, 9, 2, 4, 8, 5, 6],
     [9, 6, 1, 5, 3, 7, 2, 8, 4],
     [2, 8, 7, 4, 1, 9, 6, 3, 5],
     [3, 4, 5, 2, 8, 6, 1, 7, 9]]"

definition puzzle9 :: grid where
  "puzzle9 = [
     [5, 3, 0, 0, 7, 8, 9, 1, 2],
     [6, 7, 2, 1, 9, 5, 3, 4, 8],
     [1, 9, 8, 3, 4, 2, 5, 6, 7],
     [8, 5, 9, 7, 6, 1, 4, 2, 3],
     [4, 2, 6, 8, 0, 3, 7, 9, 1],
     [7, 1, 3, 9, 2, 4, 8, 5, 6],
     [9, 6, 1, 5, 3, 7, 2, 8, 4],
     [2, 8, 7, 4, 1, 9, 6, 3, 5],
     [3, 4, 5, 2, 8, 6, 1, 7, 9]]"

text \<open>
  A 9x9 grid without completion: the three empty cells of row 0 have only the two
  candidates 1 and 2 between them.
\<close>

definition stuck9 :: grid where
  "stuck9 = [
     [0, 0, 0, 4, 5, 6, 7, 8, 9],
     [3, 3, 3, 4, 5, 6, 7, 8, 9],
     [3, 3, 3, 4, 5, 6, 7, 8, 9],
     [3, 3, 3, 4, 5, 6, 7, 8, 9],
     [3, 3, 3, 4, 5, 6, 7, 8, 9],
     [3, 3, 3, 4, 5, 6, 7, 8, 9],
     [3, 3, 3, 4, 5, 6, 7, 8, 9],
     [3, 3, 3, 4, 5, 6, 7, 8, 9],
     [3, 3, 3, 4, 5, 6, 7, 8, 9]]"

text \<open>The addresses of a solver whose nine rows are the first nine objects of the store.\<close>

definition rows9 :: "addr list" where
  "rows9 = [0..<9]"

text \<open>A full grid that breaks the invariant: two 3s in row 0.\<close>

definition dup9 :: grid where
  "dup9 = [
     [3, 3, 4, 6, 7, 8, 9, 1, 2],
     [6, 7, 2, 1, 9, 5, 3, 4, 8],
     [1, 9, 8, 3, 4, 2, 5, 6, 7],
     [8, 5, 9, 7, 6, 1, 4, 2, 3],
     [4, 2, 6, 8, 5, 3, 7, 9, 1],
     [7, 1, 3, 9, 2, 4, 8, 5, 6],
     [9, 6, 1, 5, 3, 7, 2, 8, 4],
     [2, 8, 7, 4, 1, 9, 6, 3, 5],
     [3, 4, 5, 2, 8, 6, 1, 7, 9]]"

section \<open>Reading a well-formed grid raises nothing\<close>

lemma wf_grid_row: "wf_grid g \<Longrightarrow> r < 9 \<Longrightarrow> length (g ! r) = 9"
  by (simp add: wf_grid_def list_all_length)

lemma getitem_row: "wf_grid g \<Longrightarrow> r < 9 \<Longrightarrow> getitem g r = Inr (g ! r)"
  by (simp add: getitem_def wf_grid_def)

lemma cell_wf: "wf_grid g \<Longrightarrow> r < 9 \<Longrightarrow> c < 9 \<Longrightarrow> cell g r c = Inr (g ! r ! c)"
  by (simp add: cell_def getitem_def wf_grid_def list_all_length)

lemma column_wf:
  "wf_grid g \<Longrightarrow> c < 9 \<Longrightarrow> \<forall>r\<in>set rs. r < 9 \<Longrightarrow>
   column g c rs = Inr (map (\<lambda>r. g ! r ! c) rs)"
  by (induction rs) (simp_all add: cell_wf)

lemma box_scan_wf:
  "wf_grid g \<Longrightarrow> \<forall>(r, c)\<in>set rcs. r < 9 \<and> c < 9 \<Longrightarrow>
   box_scan g num rcs = Inr (\<forall>(r, c)\<in>set rcs. g ! r ! c \<noteq> num)"
  by (induction rcs) (auto simp: cell_wf)

lemma box_origin_bound: "r < 9 \<Longrightarrow> x < (r div 3) * 3 + 3 \<Longrightarrow> x < (9::nat)"
  by arith

lemma is_valid_wf:
  assumes "wf_grid g" "row < 9" "col < 9"
  shows "is_valid g row col num =
    Inr (num \<notin> set (g ! row) \<and> num \<notin> set (map (\<lambda>r. g ! r ! col) [0..<9]) \<and>
         (\<forall>(r, c)\<in>set (List.product [(row div 3) * 3..<(row div 3) * 3 + 3]
                                      [(col div 3) * 3..<(col div 3) * 3 + 3]).
             g ! r ! c \<noteq> num))"
proof -
  have col: "column g col [0..<9] = Inr (map (\<lambda>r. g ! r ! col) [0..<9])"
    using assms by (intro column_wf) auto
  have box: "\<forall>(r, c)\<in>set (List.product [(row div 3) * 3..<(row div 3) * 3 + 3]
                                        [(col div 3) * 3..<(col div 3) * 3 + 3]). r < 9 \<and> c < 9"
    using assms by (auto intro: box_origin_bound)
  show ?thesis
    unfolding is_valid_def Let_def
    by (simp only: getitem_row [OF assms(1,2)] col box_scan_wf [OF assms(1) box]
        sum.case split: if_splits) auto
qed

lemma is_valid_conflict_free:
  assumes "wf_grid g" "row < 9" "col < 9"
  shows "is_valid g row col num = Inr (conflict_free g row col num)"
proof -
  have len: "length (g ! row) = 9"
    using assms by (simp add: wf_grid_row)
  have rowset: "(num \<notin> set (g ! row)) = (\<forall>c<9. g ! row ! c \<noteq> num)"
    using len by (auto simp: in_set_conv_nth)
  have colset: "(num \<notin> set (map (\<lambda>r. g ! r ! col) [0..<9])) = (\<forall>r<9. g ! r ! col \<noteq> num)"
    by auto
  show ?thesis
    unfolding is_valid_wf [OF assms] rowset colset conflict_free_def by auto
qed

lemma domain_filter_wf:
  "wf_grid g \<Longrightarrow> row < 9 \<Longrightarrow> col < 9 \<Longrightarrow>
   domain_filter g row col nums = Inr (filter (conflict_free g row col) nums)"
  by (induction nums) (simp_all add: is_valid_conflict_free)

lemma get_domain_wf:
  "wf_grid g \<Longrightarrow> row < 9 \<Longrightarrow> col < 9 \<Longrightarrow>
   get_domain g row col = Inr (if g ! row ! col \<noteq> 0 then [] else domain_of g row col)"
  by (simp add: get_domain_def cell_wf domain_filter_wf domain_of_def)

lemma sorted_dom: "sorted_wrt (<) (domain_of g row col)"
  unfolding domain_of_def by (intro sorted_wrt_filter) (simp add: sorted_wrt_upto)
  
lemma set_dom: "set (domain_of g row col) = {n. 1 \<le> n \<and> n \<le> 9 \<and> conflict_free g row col n}"
  unfolding domain_of_def by auto

lemma length_dom: "length (domain_of g row col) \<le> 9"
proof -
  have "length (domain_of g row col) \<le> length [1..(9::int)]"
    unfolding domain_of_def by (rule length_filter_le)
  then show ?thesis by simp
qed

lemma mrv_pick_Cons:
  assumes "mrv_pick g ps m q" "cell_at g p = 0 \<longrightarrow> dsize g q < dsize g p"
  shows "mrv_pick g (p # ps) m q"
proof -
  from assms(1) obtain pre post where a: "ps = pre @ q # post" "cell_at g q = 0" "dsize g q < m"
    "\<forall>q'\<in>set pre. cell_at g q' = 0 \<longrightarrow> dsize g q < dsize g q'"
    "\<forall>q'\<in>set post. cell_at g q' = 0 \<longrightarrow> dsize g q \<le> dsize g q'"
    unfolding mrv_pick_def by blast
  have "p # ps = (p # pre) @ q # post" by (simp add: a(1))
  moreover have "\<forall>q'\<in>set (p # pre). cell_at g q' = 0 \<longrightarrow> dsize g q < dsize g q'"
    using a(4) assms(2) by simp
  ultimately show ?thesis
    unfolding mrv_pick_def using a(2,3,5) by blast
qed

lemma mrv_pick_head:
  assumes "cell_at g p = 0" "dsize g p < m" "\<forall>q'\<in>set ps. cell_at g q' = 0 \<longrightarrow> dsize g p \<le> dsize g q'"
  shows "mrv_pick g (p # ps) m p"
proof -
  have "p # ps = [] @ p # ps" by simp
  moreover have "\<forall>q'\<in>set []. cell_at g q' = 0 \<longrightarrow> dsize g p < dsize g q'" by simp
  ultimately show ?thesis
    unfolding mrv_pick_def using assms by blast
qed

lemma mrv_pick_less: "mrv_pick g ps m q \<Longrightarrow> dsize g q < m"
  unfolding mrv_pick_def by blast

lemma mrv_pick_mono:
  assumes "mrv_pick g ps m q" "m \<le> m'"
  shows "mrv_pick g ps m' q"
proof -
  from assms(1) obtain pre post where a: "ps = pre @ q # post" "cell_at g q = 0" "dsize g q < m"
    "\<forall>q'\<in>set pre. cell_at g q' = 0 \<longrightarrow> dsize g q < dsize g q'"
    "\<forall>q'\<in>set post. cell_at g q' = 0 \<longrightarrow> dsize g q \<le> dsize g q'"
    unfolding mrv_pick_def by blast
  from a(3) assms(2) have "dsize g q < m'" by simp
  with a(1,2,4,5) show ?thesis
    unfolding mrv_pick_def by blast
qed

lemma mrv_res_skip:
  assumes "mrv_res g ps acc res" "cell_at g p = 0 \<longrightarrow> fst acc \<le> dsize g p"
  shows "mrv_res g (p # ps) acc res"
  using assms(1) unfolding mrv_res_def
proof (elim disjE conjE exE)
  assume "res = acc" "\<forall>q\<in>set ps. cell_at g q = 0 \<longrightarrow> fst acc \<le> dsize g q"
  with assms(2) show "(res = acc \<and> (\<forall>q\<in>set (p # ps). cell_at g q = 0 \<longrightarrow> fst acc \<le> dsize g q)) \<or>
      (\<exists>q. mrv_pick g (p # ps) (fst acc) q \<and>
           res = (dsize g q, Some (fst q, snd q, domain_of g (fst q) (snd q))))"
    by simp
next
  fix q assume q: "mrv_pick g ps (fst acc) q"
    "res = (dsize g q, Some (fst q, snd q, domain_of g (fst q) (snd q)))"
  have "cell_at g p = 0 \<longrightarrow> dsize g q < dsize g p"
    using mrv_pick_less [OF q(1)] assms(2) by auto
  from mrv_pick_Cons [OF q(1) this] q(2)
  show "(res = acc \<and> (\<forall>q\<in>set (p # ps). cell_at g q = 0 \<longrightarrow> fst acc \<le> dsize g q)) \<or>
      (\<exists>q. mrv_pick g (p # ps) (fst acc) q \<and>
           res = (dsize g q, Some (fst q, snd q, domain_of g (fst q) (snd q))))"
    by blast
qed

lemma mrv_res_take:
  assumes "mrv_res g ps (dsize g p, Some (fst p, snd p, domain_of g (fst p) (snd p))) res"
    "cell_at g p = 0" "dsize g p < fst acc"
  shows "mrv_res g (p # ps) acc res"
  using assms(1) unfolding mrv_res_def fst_conv
proof (elim disjE conjE exE)
  assume a: "res = (dsize g p, Some (fst p, snd p, domain_of g (fst p) (snd p)))"
    "\<forall>q\<in>set ps. cell_at g q = 0 \<longrightarrow> dsize g p \<le> dsize g q"
  from mrv_pick_head [OF assms(2,3) a(2)] a(1)
  show "(res = acc \<and> (\<forall>q\<in>set (p # ps). cell_at g q = 0 \<longrightarrow> fst acc \<le> dsize g q)) \<or>
      (\<exists>q. mrv_pick g (p # ps) (fst acc) q \<and>
           res = (dsize g q, Some (fst q, snd q, domain_of g (fst q) (snd q))))"
    by blast
next
  fix q assume q: "mrv_pick g ps (dsize g p) q"
    "res = (dsize g q, Some (fst q, snd q, domain_of g (fst q) (snd q)))"
  have "mrv_pick g ps (fst acc) q"
    using mrv_pick_mono [OF q(1)] assms(3) by simp
  moreover have "cell_at g p = 0 \<longrightarrow> dsize g q < dsize g p"
    using mrv_pick_less [OF q(1)] by simp
  ultimately have "mrv_pick g (p # ps) (fst acc) q"
    by (rule mrv_pick_Cons)
  with q(2)
  show "(res = acc \<and> (\<forall>q\<in>set (p # ps). cell_at g q = 0 \<longrightarrow> fst acc \<le> dsize g q)) \<or>
      (\<exists>q. mrv_pick g (p # ps) (fst acc) q \<and>
           res = (dsize g q, Some (fst q, snd q, domain_of g (fst q) (snd q))))"
    by blast
qed

lemma mrv_scan_spec:
  assumes "wf_grid g" "\<forall>p\<in>set ps. fst p < 9 \<and> snd p < 9"
  shows "\<exists>res. mrv_scan g ps acc = Inr res \<and> mrv_res g ps acc res"
  using assms(2)
proof (induction ps arbitrary: acc)
  case Nil
  then show ?case by (simp add: mrv_res_def)
next
  case (Cons p ps)
  obtain r c where p: "p = (r, c)" by (cases p)
  obtain m best where acc: "acc = (m, best)" by (cases acc)
  from Cons.prems p have rc: "r < 9" "c < 9" and rest: "\<forall>p\<in>set ps. fst p < 9 \<and> snd p < 9"
    by auto
  note cw = cell_wf [OF assms(1) rc] and gd = get_domain_wf [OF assms(1) rc]
  show ?case
  proof (cases "cell_at g p = 0 \<and> dsize g p < m")
    case True
    then have step: "mrv_scan g (p # ps) acc =
        mrv_scan g ps (dsize g p, Some (fst p, snd p, domain_of g (fst p) (snd p)))"
      by (simp add: p acc cw gd cell_at_def dsize_def)
    from Cons.IH [OF rest] obtain res
      where "mrv_scan g ps (dsize g p, Some (fst p, snd p, domain_of g (fst p) (snd p))) = Inr res"
        "mrv_res g ps (dsize g p, Some (fst p, snd p, domain_of g (fst p) (snd p))) res"
      by blast
    with True show ?thesis
      unfolding step by (auto intro: mrv_res_take simp: acc)
  next
    case False
    then have step: "mrv_scan g (p # ps) acc = mrv_scan g ps acc"
      by (auto simp: p acc cw gd cell_at_def dsize_def)
    from Cons.IH [OF rest] obtain res
      where "mrv_scan g ps acc = Inr res" "mrv_res g ps acc res"
      by blast
    with False show ?thesis
      unfolding step by (auto intro!: mrv_res_skip simp: acc)
  qed
qed

subsection \<open>The scan of \<open>find_mrv_cell\<close>\<close>

lemma sorted_product:
  "sorted_wrt (<) xs \<Longrightarrow> sorted_wrt (<) ys \<Longrightarrow> sorted_wrt lex_less (List.product xs ys)"
proof (induction xs)
  case Nil
  then show ?case by simp
next
  case (Cons x xs)
  have "sorted_wrt lex_less (map (Pair x) ys)"
    using Cons.prems(2) by (simp add: sorted_wrt_map lex_less_def)
  moreover have "sorted_wrt lex_less (List.product xs ys)"
    using Cons by simp
  moreover have "\<forall>p\<in>set (map (Pair x) ys). \<forall>q\<in>set (List.product xs ys). lex_less p q"
    using Cons.prems(1) by (auto simp: lex_less_def)
  ultimately show ?case
    by (simp add: sorted_wrt_append)
qed

lemma sorted_cells9: "sorted_wrt lex_less cells9"
  unfolding cells9_def by (intro sorted_product) simp_all

lemma set_cells9: "set cells9 = {p. fst p < 9 \<and> snd p < 9}"
  unfolding cells9_def by auto

lemma cells9_split:
  assumes "cells9 = pre @ q # post" "fst p < 9" "snd p < 9"
  shows "p \<in> set pre \<or> p = q \<or> p \<in> set post"
    and "lex_less p q \<Longrightarrow> p \<in> set pre"
proof -
  have "p \<in> set cells9" using assms(2,3) by (simp add: set_cells9)
  then show mem: "p \<in> set pre \<or> p = q \<or> p \<in> set post"
    unfolding assms(1) by auto
  have "\<forall>x\<in>set post. lex_less q x"
    using sorted_cells9 unfolding assms(1) by (simp add: sorted_wrt_append)
  then have "p \<in> set post \<Longrightarrow> \<not> lex_less p q"
    by (auto simp: lex_less_def)
  moreover have "p = q \<Longrightarrow> \<not> lex_less p q"
    by (simp add: lex_less_def)
  ultimately show "lex_less p q \<Longrightarrow> p \<in> set pre"
    using mem by blast
qed

lemma find_mrv_cell_cases:
  assumes "wf_grid g"
  shows "(find_mrv_cell g = Inr None \<and> (\<forall>p\<in>set cells9. cell_at g p \<noteq> 0)) \<or>
         (\<exists>q. mrv_pick g cells9 10 q \<and>
              find_mrv_cell g = Inr (Some (fst q, snd q, domain_of g (fst q) (snd q))))"
proof -
  have rng: "\<forall>p\<in>set cells9. fst p < 9 \<and> snd p < 9"
    by (simp add: set_cells9)
  from mrv_scan_spec [OF assms rng, of "(10, None)"]
  obtain res where res: "mrv_scan g cells9 (10, None) = Inr res"
    "mrv_res g cells9 (10, None) res"
    by blast
  from res(2) show ?thesis
    unfolding mrv_res_def fst_conv
  proof (elim disjE conjE exE)
    assume a: "res = (10, None)" "\<forall>q\<in>set cells9. cell_at g q = 0 \<longrightarrow> 10 \<le> dsize g q"
    have "cell_at g q \<noteq> 0" if "q \<in> set cells9" for q
    proof
      assume "cell_at g q = 0"
      with a(2) that have "10 \<le> dsize g q" by blast
      moreover have "dsize g q \<le> 9"
        unfolding dsize_def by (rule length_dom)
      ultimately show False by simp
    qed
    then have "\<forall>q\<in>set cells9. cell_at g q \<noteq> 0"
      by blast
    with a(1) res(1) show ?thesis
      by (simp add: find_mrv_cell_def)
  next
    fix q assume "mrv_pick g cells9 10 q"
      "res = (dsize g q, Some (fst q, snd q, domain_of g (fst q) (snd q)))"
    with res(1) show ?thesis
      by (auto simp: find_mrv_cell_def)
  qed
qed

lemma mrv_pick_cells9:
  assumes "mrv_pick g cells9 m q"
  shows "fst q < 9" "snd q < 9" "cell_at g q = 0"
    and "\<And>p. fst p < 9 \<Longrightarrow> snd p < 9 \<Longrightarrow> cell_at g p = 0 \<Longrightarrow> dsize g q \<le> dsize g p"
    and "\<And>p. fst p < 9 \<Longrightarrow> snd p < 9 \<Longrightarrow> cell_at g p = 0 \<Longrightarrow> lex_less p q \<Longrightarrow>
           dsize g q < dsize g p"
proof -
  from assms obtain pre post where a: "cells9 = pre @ q # post" "cell_at g q = 0"
    "\<forall>q'\<in>set pre. cell_at g q' = 0 \<longrightarrow> dsize g q < dsize g q'"
    "\<forall>q'\<in>set post. cell_at g q' = 0 \<longrightarrow> dsize g q \<le> dsize g q'"
    unfolding mrv_pick_def by blast
  have "q \<in> set cells9" unfolding a(1) by simp
  then show "fst q < 9" "snd q < 9" by (simp_all add: set_cells9)
  show "cell_at g q = 0" by (rule a(2))
  show "dsize g q \<le> dsize g p" if "fst p < 9" "snd p < 9" "cell_at g p = 0" for p
    using cells9_split(1) [OF a(1) that(1,2)] a(3,4) that(3) by (auto simp: less_imp_le)
  show "dsize g q < dsize g p"
    if "fst p < 9" "snd p < 9" "cell_at g p = 0" "lex_less p q" for p
    using cells9_split(2) [OF a(1) that(1,2,4)] a(3) that(3) by blast
qed

subsection \<open>Writing through the store\<close>

lemma wf_solver_addr:
  "wf_solver h self \<Longrightarrow> r < 9 \<Longrightarrow> self ! r < length h \<and> length (h ! (self ! r)) = 9"
  by (simp add: wf_solver_def list_all_length)

lemma wf_solver_view: "wf_solver h self \<Longrightarrow> wf_grid (view h self)"
  by (simp add: wf_solver_def wf_grid_def view_def list_all_length)

lemma setitem_wf:
  "wf_solver h self \<Longrightarrow> r < 9 \<Longrightarrow> c < 9 \<Longrightarrow> setitem h self r c v = Inr (place h self r c v)"
  using wf_solver_addr [of h self r]
  by (simp add: setitem_def getitem_def place_def wf_solver_def)

lemma length_place: "length (place h self r c v) = length h"
  by (simp add: place_def)

lemma place_other: "a \<noteq> self ! r \<Longrightarrow> place h self r c v ! a = h ! a"
  by (simp add: place_def)

lemma place_frame:
  "length self = 9 \<Longrightarrow> r < 9 \<Longrightarrow> a \<notin> set self \<Longrightarrow> place h self r c v ! a = h ! a"
  by (rule place_other) (metis nth_mem)

lemma wf_place:
  assumes "wf_solver h self" "r < 9"
  shows "wf_solver (place h self r c v) self"
proof -
  have "length (place h self r c v ! a) = 9" if "a \<in> set self" for a
  proof (cases "a = self ! r")
    case True
    then show ?thesis
      using wf_solver_addr [OF assms] by (simp add: place_def)
  next
    case False
    then show ?thesis
      using assms(1) that by (simp add: place_other wf_solver_def list_all_iff)
  qed
  then show ?thesis
    using assms(1) by (simp add: wf_solver_def list_all_iff length_place)
qed

lemma view_place:
  assumes "wf_solver h self" "r < 9"
  shows "view (place h self r c v) self = gset (view h self) r c v"
proof (rule nth_equalityI)
  show "length (view (place h self r c v) self) = length (gset (view h self) r c v)"
    by (simp add: view_def gset_def)
next
  fix i assume "i < length (view (place h self r c v) self)"
  then have i: "i < length self" by (simp add: view_def)
  have len: "length self = 9" and dist: "distinct self"
    using assms(1) by (simp_all add: wf_solver_def)
  show "view (place h self r c v) self ! i = gset (view h self) r c v ! i"
  proof (cases "i = r")
    case True
    then show ?thesis
      using i wf_solver_addr [OF assms] by (simp add: view_def gset_def place_def)
  next
    case False
    then have "self ! i \<noteq> self ! r"
      using dist i assms(2) len by (simp add: nth_eq_iff_index_eq)
    then show ?thesis
      using i False by (simp add: view_def gset_def place_other)
  qed
qed

lemma place_undo:
  assumes "wf_solver h self" "r < 9" "c < 9" "cell_at (view h self) (r, c) = 0"
  shows "place (place h self r c v) self r c 0 = h"
proof -
  have "h ! (self ! r) ! c = 0"
    using assms by (simp add: cell_at_def view_def wf_solver_def)
  then have "(h ! (self ! r))[c := 0] = h ! (self ! r)"
    by (metis list_update_id)
  then show ?thesis
    using wf_solver_addr [OF assms(1,2)] by (simp add: place_def)
qed

subsection \<open>Replacing one cell of a grid\<close>

lemma wf_gset:
  assumes "wf_grid g"
  shows "wf_grid (gset g r c v)"
proof -
  have "length (g[r := (g ! r)[c := v]] ! n) = 9" if "n < 9" for n
  proof (cases "n = r")
    case True
    then show ?thesis
      using assms that by (simp add: wf_grid_def list_all_length)
  next
    case False
    then show ?thesis
      using assms that by (simp add: wf_grid_def list_all_length)
  qed
  then show ?thesis
    using assms by (simp add: wf_grid_def list_all_length gset_def)
qed

lemma cell_at_gset:
  assumes "wf_grid g" "r < 9" "c < 9"
  shows "cell_at (gset g r c v) p = (if p = (r, c) then v else cell_at g p)"
proof -
  have "length g = 9" "length (g ! r) = 9"
    using assms by (simp_all add: wf_grid_def list_all_length)
  then show ?thesis
    using assms(2,3) by (cases p) (auto simp: cell_at_def gset_def nth_list_update)
qed

subsection \<open>Counting the empty cells\<close>

lemma length_cells9: "length cells9 = 81"
  by (simp add: cells9_def)

lemma empties_le: "empties g \<le> 81"
proof -
  have "empties g \<le> length cells9"
    unfolding empties_def by (rule length_filter_le)
  then show ?thesis by (simp add: length_cells9)
qed

lemma empties_zero: "(empties g = 0) = (\<forall>p\<in>set cells9. cell_at g p \<noteq> 0)"
  by (auto simp: empties_def filter_empty_conv)

lemma length_filter_strict:
  assumes "\<And>x. x \<in> set xs \<Longrightarrow> P x \<Longrightarrow> Q x" "y \<in> set xs" "Q y" "\<not> P y"
  shows "length (filter P xs) < length (filter Q xs)"
proof -
  have "filter P xs = filter P (filter Q xs)"
    using assms(1) by (auto simp: filter_filter intro: filter_cong)
  moreover have "length (filter P (filter Q xs)) < length (filter Q xs)"
    using assms(2,3,4) by (intro length_filter_less [of y]) simp_all
  ultimately show ?thesis by simp
qed

lemma empties_gset:
  assumes "wf_grid g" "r < 9" "c < 9" "cell_at g (r, c) = 0" "v \<noteq> 0"
  shows "empties (gset g r c v) < empties g"
  unfolding empties_def
proof (rule length_filter_strict [of _ _ _ "(r, c)"])
  show "cell_at g x = 0" if "cell_at (gset g r c v) x = 0" for x
    using that assms(5) by (simp add: cell_at_gset [OF assms(1,2,3)] split: if_splits)
  show "(r, c) \<in> set cells9"
    using assms(2,3) by (simp add: set_cells9)
  show "cell_at g (r, c) = 0" by (rule assms(4))
  show "\<not> cell_at (gset g r c v) (r, c) = 0"
    using assms(5) by (simp add: cell_at_gset [OF assms(1,2,3)])
qed

subsection \<open>The concrete grids\<close>

lemma wf_puzzle9: "wf_grid puzzle9"
  by (simp add: wf_grid_def puzzle9_def)

lemma find_mrv_cell_puzzle9: "find_mrv_cell puzzle9 = Inr (Some (0, 2, [4]))"
  by code_simp

subsection \<open>Units and the cells that share one\<close>

lemma in_row_cells: "(p \<in> set (row_cells r)) = (fst p = r \<and> snd p < 9)"
  by (cases p) (auto simp: row_cells_def)

lemma in_col_cells: "(p \<in> set (col_cells c)) = (snd p = c \<and> fst p < 9)"
  by (cases p) (auto simp: col_cells_def)

lemma div3_range: "(b * 3 \<le> x \<and> x < b * 3 + 3) = (x div 3 = (b::nat))"
  by arith

lemma in_box_cells: "(p \<in> set (box_cells br bc)) = (fst p div 3 = br \<and> snd p div 3 = bc)"
  by (cases p) (simp add: box_cells_def div3_range)

lemma in_unit_cells:
  "(u \<in> set unit_cells) = ((\<exists>r<9. u = row_cells r) \<or> (\<exists>c<9. u = col_cells c) \<or>
     (\<exists>br<3. \<exists>bc<3. u = box_cells br bc))"
proof -
  have 1: "(u \<in> row_cells ` {0..<9}) = (\<exists>r<9. u = row_cells r)"
    by auto
  have 2: "(u \<in> col_cells ` {0..<9}) = (\<exists>c<9. u = col_cells c)"
    by auto
  have 3: "(u \<in> (\<lambda>(br, bc). box_cells br bc) ` ({0..<3} \<times> {0..<3})) =
      (\<exists>br<3. \<exists>bc<3. u = box_cells br bc)"
    by force
  show ?thesis
    unfolding unit_cells_def
    by (simp only: set_append set_map set_upt set_product Un_iff 1 2 3)
qed

lemma unit_cells_range:
  assumes "u \<in> set unit_cells" "p \<in> set u"
  shows "fst p < 9 \<and> snd p < 9"
proof -
  have "x div 3 < 3 \<Longrightarrow> x < 9" for x :: nat by arith
  then show ?thesis
    using assms by (auto simp: in_unit_cells in_row_cells in_col_cells in_box_cells)
qed

lemma unit_cells_distinct: "u \<in> set unit_cells \<Longrightarrow> distinct u"
  by (auto simp: in_unit_cells row_cells_def col_cells_def box_cells_def distinct_map
      inj_on_def intro: distinct_product)

lemma unit_cells_length: "u \<in> set unit_cells \<Longrightarrow> length u = 9"
  by (auto simp: in_unit_cells row_cells_def col_cells_def box_cells_def)

lemma unit_pairs:
  assumes "fst p < 9" "snd p < 9" "fst q < 9" "snd q < 9"
  shows "(\<exists>u\<in>set unit_cells. p \<in> set u \<and> q \<in> set u) = same_unit p q"
proof
  assume "\<exists>u\<in>set unit_cells. p \<in> set u \<and> q \<in> set u"
  then show "same_unit p q"
    by (auto simp: in_unit_cells in_row_cells in_col_cells in_box_cells same_unit_def)
next
  assume "same_unit p q"
  then consider "fst p = fst q" | "snd p = snd q"
    | "fst p div 3 = fst q div 3 \<and> snd p div 3 = snd q div 3"
    unfolding same_unit_def by blast
  then show "\<exists>u\<in>set unit_cells. p \<in> set u \<and> q \<in> set u"
  proof cases
    case 1
    have "row_cells (fst p) \<in> set unit_cells"
      using assms(1) by (auto simp: in_unit_cells)
    then show ?thesis
      using 1 assms by (intro bexI [of _ "row_cells (fst p)"]) (simp_all add: in_row_cells)
  next
    case 2
    have "col_cells (snd p) \<in> set unit_cells"
      using assms(2) by (auto simp: in_unit_cells)
    then show ?thesis
      using 2 assms by (intro bexI [of _ "col_cells (snd p)"]) (simp_all add: in_col_cells)
  next
    case 3
    have "fst p div 3 < 3" "snd p div 3 < 3"
      using assms(1,2) by arith+
    then have "box_cells (fst p div 3) (snd p div 3) \<in> set unit_cells"
      unfolding in_unit_cells by blast
    then show ?thesis
      using 3 by (intro bexI [of _ "box_cells (fst p div 3) (snd p div 3)"])
        (simp_all add: in_box_cells)
  qed
qed

lemma same_unit_refl: "same_unit p p"
  by (simp add: same_unit_def)

lemma same_unit_sym: "same_unit p q \<Longrightarrow> same_unit q p"
  by (auto simp: same_unit_def)

lemma distinct_nz_map:
  "distinct ps \<Longrightarrow>
   distinct (filter (\<lambda>v. v \<noteq> 0) (map f ps)) =
     (\<forall>p\<in>set ps. \<forall>q\<in>set ps. p \<noteq> q \<and> f p \<noteq> (0::int) \<longrightarrow> f p \<noteq> f q)"
proof (induction ps)
  case Nil
  then show ?case by simp
next
  case (Cons a ps)
  then have IH: "distinct (filter (\<lambda>v. v \<noteq> 0) (map f ps)) =
     (\<forall>p\<in>set ps. \<forall>q\<in>set ps. p \<noteq> q \<and> f p \<noteq> 0 \<longrightarrow> f p \<noteq> f q)"
    and a: "a \<notin> set ps"
    by simp_all
  show ?case
  proof (cases "f a = 0")
    case True
    have "(\<forall>p\<in>set (a # ps). \<forall>q\<in>set (a # ps). p \<noteq> q \<and> f p \<noteq> 0 \<longrightarrow> f p \<noteq> f q) =
      (\<forall>p\<in>set ps. \<forall>q\<in>set ps. p \<noteq> q \<and> f p \<noteq> 0 \<longrightarrow> f p \<noteq> f q)"
      using True by auto
    then show ?thesis
      using True IH by simp
  next
    case False
    have "(\<forall>p\<in>set (a # ps). \<forall>q\<in>set (a # ps). p \<noteq> q \<and> f p \<noteq> 0 \<longrightarrow> f p \<noteq> f q) =
      ((\<forall>q\<in>set ps. f a \<noteq> f q) \<and>
       (\<forall>p\<in>set ps. \<forall>q\<in>set ps. p \<noteq> q \<and> f p \<noteq> 0 \<longrightarrow> f p \<noteq> f q))"
      using False a by auto
    moreover have "(f a \<notin> set (filter (\<lambda>v. v \<noteq> 0) (map f ps))) = (\<forall>q\<in>set ps. f a \<noteq> f q)"
      using False by auto
    ultimately show ?thesis
      using False IH by simp
  qed
qed

lemma grid_inv_units:
  "grid_inv g = (\<forall>u\<in>set unit_cells. \<forall>p\<in>set u. \<forall>q\<in>set u.
     p \<noteq> q \<and> cell_at g p \<noteq> 0 \<longrightarrow> cell_at g p \<noteq> cell_at g q)"
  unfolding grid_inv_def list_all_iff
  by (intro ball_cong refl distinct_nz_map unit_cells_distinct)

lemma grid_inv_iff:
  "grid_inv g = (\<forall>p\<in>set cells9. \<forall>q\<in>set cells9.
     p \<noteq> q \<and> same_unit p q \<and> cell_at g p \<noteq> 0 \<longrightarrow> cell_at g p \<noteq> cell_at g q)"
proof
  assume inv: "grid_inv g"
  show "\<forall>p\<in>set cells9. \<forall>q\<in>set cells9.
     p \<noteq> q \<and> same_unit p q \<and> cell_at g p \<noteq> 0 \<longrightarrow> cell_at g p \<noteq> cell_at g q"
  proof (intro ballI impI, elim conjE)
    fix p q assume pq: "p \<in> set cells9" "q \<in> set cells9" "p \<noteq> q" "same_unit p q"
      "cell_at g p \<noteq> 0"
    then have "\<exists>u\<in>set unit_cells. p \<in> set u \<and> q \<in> set u"
      by (simp add: unit_pairs set_cells9)
    then obtain u where "u \<in> set unit_cells" "p \<in> set u" "q \<in> set u" by blast
    with inv pq(3,5) show "cell_at g p \<noteq> cell_at g q"
      unfolding grid_inv_units by blast
  qed
next
  assume pw: "\<forall>p\<in>set cells9. \<forall>q\<in>set cells9.
     p \<noteq> q \<and> same_unit p q \<and> cell_at g p \<noteq> 0 \<longrightarrow> cell_at g p \<noteq> cell_at g q"
  show "grid_inv g"
    unfolding grid_inv_units
  proof (intro ballI impI, elim conjE)
    fix u p q assume u: "u \<in> set unit_cells" "p \<in> set u" "q \<in> set u" "p \<noteq> q"
      "cell_at g p \<noteq> 0"
    have rng: "fst p < 9 \<and> snd p < 9" "fst q < 9 \<and> snd q < 9"
      using unit_cells_range [OF u(1)] u(2,3) by blast+
    then have "same_unit p q"
      using unit_pairs [of p q] u(1,2,3) by blast
    moreover have "p \<in> set cells9" "q \<in> set cells9"
      using rng by (simp_all add: set_cells9)
    ultimately show "cell_at g p \<noteq> cell_at g q"
      using pw u(4,5) by blast
  qed
qed

lemma conflict_free_iff:
  assumes "r < 9" "c < 9"
  shows "conflict_free g r c n =
    (\<forall>q\<in>set cells9. same_unit (r, c) q \<longrightarrow> cell_at g q \<noteq> n)"
proof
  assume cf: "conflict_free g r c n"
  show "\<forall>q\<in>set cells9. same_unit (r, c) q \<longrightarrow> cell_at g q \<noteq> n"
  proof (intro ballI impI)
    fix q assume q: "q \<in> set cells9" "same_unit (r, c) q"
    then have rng: "fst q < 9" "snd q < 9" by (simp_all add: set_cells9)
    from q(2) have "r = fst q \<or> c = snd q \<or> (r div 3 = fst q div 3 \<and> c div 3 = snd q div 3)"
      unfolding same_unit_def fst_conv snd_conv .
    then consider "fst q = r" | "snd q = c"
      | "fst q div 3 = r div 3 \<and> snd q div 3 = c div 3"
      by metis
    then show "cell_at g q \<noteq> n"
    proof cases
      case 1
      then show ?thesis using cf rng by (simp add: conflict_free_def cell_at_def)
    next
      case 2
      then show ?thesis using cf rng by (simp add: conflict_free_def cell_at_def)
    next
      case 3
      then have "fst q \<in> {r div 3 * 3..<r div 3 * 3 + 3}" "snd q \<in> {c div 3 * 3..<c div 3 * 3 + 3}"
        using div3_range [of "r div 3" "fst q"] div3_range [of "c div 3" "snd q"] by simp_all
      then show ?thesis using cf by (simp add: conflict_free_def cell_at_def)
    qed
  qed
next
  assume pw: "\<forall>q\<in>set cells9. same_unit (r, c) q \<longrightarrow> cell_at g q \<noteq> n"
  have 1: "g ! r ! c' \<noteq> n" if "c' < 9" for c'
    using pw [rule_format, of "(r, c')"] that assms
    by (simp add: set_cells9 same_unit_def cell_at_def)
  have 2: "g ! r' ! c \<noteq> n" if "r' < 9" for r'
    using pw [rule_format, of "(r', c)"] that assms
    by (simp add: set_cells9 same_unit_def cell_at_def)
  have 3: "g ! r' ! c' \<noteq> n"
    if "r' \<in> {r div 3 * 3..<r div 3 * 3 + 3}" "c' \<in> {c div 3 * 3..<c div 3 * 3 + 3}" for r' c'
  proof -
    have d: "r' div 3 = r div 3" "c' div 3 = c div 3"
      using that div3_range [of "r div 3" r'] div3_range [of "c div 3" c'] by simp_all
    have "r' < 9" "c' < 9"
      using that assms by (auto intro: box_origin_bound)
    then show ?thesis
      using pw [rule_format, of "(r', c')"] d
      by (simp add: set_cells9 same_unit_def cell_at_def)
  qed
  show "conflict_free g r c n"
    unfolding conflict_free_def using 1 2 3 by blast
qed

subsection \<open>The invariant under a write\<close>

lemma grid_inv_gset:
  assumes "wf_grid g" "r < 9" "c < 9" "grid_inv g" "conflict_free g r c v"
  shows "grid_inv (gset g r c v)"
  unfolding grid_inv_iff
proof (intro ballI impI, elim conjE)
  fix p q assume pq: "p \<in> set cells9" "q \<in> set cells9" "p \<noteq> q" "same_unit p q"
    "cell_at (gset g r c v) p \<noteq> 0"
  note at = cell_at_gset [OF assms(1,2,3)]
  note cf = assms(5) [unfolded conflict_free_iff [OF assms(2,3)], rule_format]
  show "cell_at (gset g r c v) p \<noteq> cell_at (gset g r c v) q"
  proof (cases "p = (r, c)")
    case True
    then have "cell_at g q \<noteq> v"
      using cf [of q] pq(2,4) by simp
    then show ?thesis
      using True pq(3) by (simp add: at)
  next
    case False
    show ?thesis
    proof (cases "q = (r, c)")
      case True
      then have "cell_at g p \<noteq> v"
        using cf [of p] pq(1) same_unit_sym [OF pq(4)] by simp
      then show ?thesis
        using True False by (simp add: at)
    next
      case qF: False
      have "cell_at g p \<noteq> 0" using pq(5) False by (simp add: at)
      then have "cell_at g p \<noteq> cell_at g q"
        using assms(4) pq(1,2,3,4) unfolding grid_inv_iff by blast
      then show ?thesis
        using False qF by (simp add: at)
    qed
  qed
qed

lemma grid_inv_clear:
  assumes "wf_grid g" "r < 9" "c < 9" "grid_inv g"
  shows "grid_inv (gset g r c 0)"
  unfolding grid_inv_iff
proof (intro ballI impI, elim conjE)
  fix p q assume pq: "p \<in> set cells9" "q \<in> set cells9" "p \<noteq> q" "same_unit p q"
    "cell_at (gset g r c 0) p \<noteq> 0"
  note at = cell_at_gset [OF assms(1,2,3)]
  from pq(5) have p: "p \<noteq> (r, c)" "cell_at g p \<noteq> 0"
    by (simp_all add: at split: if_splits)
  then have "cell_at g p \<noteq> cell_at g q"
    using assms(4) pq(1,2,3,4) unfolding grid_inv_iff by blast
  then show "cell_at (gset g r c 0) p \<noteq> cell_at (gset g r c 0) q"
    using p by (simp add: at)
qed

subsection \<open>Complete valid grids\<close>

lemma cell_in_row_unit:
  assumes "p \<in> set cells9"
  shows "row_cells (fst p) \<in> set unit_cells" "p \<in> set (row_cells (fst p))"
  using assms by (auto simp: set_cells9 in_unit_cells in_row_cells)

lemma solved_imp:
  assumes "solved g"
  shows "grid_inv g" and "\<forall>p\<in>set cells9. 1 \<le> cell_at g p \<and> cell_at g p \<le> 9"
proof -
  have unit: "distinct (map (cell_at g) u) \<and> set (map (cell_at g) u) = {1..9}"
    if "u \<in> set unit_cells" for u
  proof -
    have m: "mset (map (cell_at g) u) = mset [1..9]"
      using assms that by (simp add: solved_def list_all_iff)
    have "distinct (map (cell_at g) u) = distinct [1..(9::int)]"
      by (rule mset_eq_imp_distinct_iff [OF m])
    moreover have "set (map (cell_at g) u) = set [1..(9::int)]"
      by (rule mset_eq_setD [OF m])
    ultimately show ?thesis by simp
  qed
  show "grid_inv g"
    unfolding grid_inv_def list_all_iff using unit by (simp add: distinct_filter)
  show "\<forall>p\<in>set cells9. 1 \<le> cell_at g p \<and> cell_at g p \<le> 9"
  proof
    fix p assume p: "p \<in> set cells9"
    have "cell_at g p \<in> set (map (cell_at g) (row_cells (fst p)))"
      using cell_in_row_unit(2) [OF p] by simp
    then have "cell_at g p \<in> {1..9}"
      using unit [OF cell_in_row_unit(1) [OF p]] by blast
    then show "1 \<le> cell_at g p \<and> cell_at g p \<le> 9" by simp
  qed
qed

lemma solvedI:
  assumes "grid_inv g" "\<forall>p\<in>set cells9. 1 \<le> cell_at g p \<and> cell_at g p \<le> 9"
  shows "solved g"
  unfolding solved_def list_all_iff
proof
  fix u assume u: "u \<in> set unit_cells"
  let ?vs = "map (cell_at g) u"
  have rng: "\<forall>p\<in>set u. 1 \<le> cell_at g p \<and> cell_at g p \<le> 9"
  proof
    fix p assume "p \<in> set u"
    then have "p \<in> set cells9"
      using unit_cells_range [OF u] by (simp add: set_cells9)
    then show "1 \<le> cell_at g p \<and> cell_at g p \<le> 9"
      using assms(2) by blast
  qed
  then have nz: "filter (\<lambda>v. v \<noteq> 0) ?vs = ?vs"
    by (auto simp: filter_id_conv)
  have "distinct (filter (\<lambda>v. v \<noteq> 0) ?vs)"
    using assms(1) u unfolding grid_inv_def list_all_iff by blast
  then have dist: "distinct ?vs"
    unfolding nz .
  have sub: "set ?vs \<subseteq> {1..9}"
    using rng by auto
  have "card (set ?vs) = length ?vs"
    using dist by (rule distinct_card)
  also have "\<dots> = card {1..(9::int)}"
    using unit_cells_length [OF u] by simp
  finally have "set ?vs = {1..9}"
    using sub by (intro card_subset_eq) (simp_all del: set_map)
  also have "\<dots> = set [1..(9::int)]"
    by simp
  finally show "mset ?vs = mset [1..9]"
    using dist set_eq_iff_mset_eq_distinct [of ?vs "[1..9]"] by (simp del: set_map set_upto)
qed

subsection \<open>Completions\<close>

lemma keeps_iff: "keeps g s = (\<forall>p\<in>set cells9. cell_at g p \<noteq> 0 \<longrightarrow> cell_at s p = cell_at g p)"
  unfolding keeps_def list_all_iff by blast

lemma completion_parts:
  assumes "completion g s"
  shows "grid_inv s" and "\<forall>p\<in>set cells9. 1 \<le> cell_at s p \<and> cell_at s p \<le> 9"
    and "\<forall>p\<in>set cells9. cell_at g p \<noteq> 0 \<longrightarrow> cell_at s p = cell_at g p"
proof -
  have sol: "solved s" and k: "keeps g s"
    using assms by (simp_all add: completion_def)
  show "grid_inv s" by (rule solved_imp(1) [OF sol])
  show "\<forall>p\<in>set cells9. 1 \<le> cell_at s p \<and> cell_at s p \<le> 9"
    by (rule solved_imp(2) [OF sol])
  show "\<forall>p\<in>set cells9. cell_at g p \<noteq> 0 \<longrightarrow> cell_at s p = cell_at g p"
    using k unfolding keeps_iff .
qed

lemma grid_invD:
  assumes "grid_inv g" "p \<in> set cells9" "q \<in> set cells9" "p \<noteq> q" "same_unit p q"
    "cell_at g p \<noteq> 0"
  shows "cell_at g p \<noteq> cell_at g q"
  using assms(1) [unfolded grid_inv_iff, rule_format, of p q] assms(2-) by simp

lemma completion_value:
  assumes "completion g s" "r < 9" "c < 9" "cell_at g (r, c) = 0"
  shows "conflict_free g r c (cell_at s (r, c))"
    and "1 \<le> cell_at s (r, c) \<and> cell_at s (r, c) \<le> 9"
proof -
  note s = completion_parts [OF assms(1)]
  have rc: "(r, c) \<in> set cells9"
    using assms(2,3) by (simp add: set_cells9)
  show rng: "1 \<le> cell_at s (r, c) \<and> cell_at s (r, c) \<le> 9"
    by (rule s(2) [rule_format, OF rc])
  show "conflict_free g r c (cell_at s (r, c))"
    unfolding conflict_free_iff [OF assms(2,3)]
  proof (intro ballI impI)
    fix q assume q: "q \<in> set cells9" "same_unit (r, c) q"
    show "cell_at g q \<noteq> cell_at s (r, c)"
    proof (cases "cell_at g q = 0")
      case True
      then show ?thesis using rng by simp
    next
      case False
      have eq: "cell_at s q = cell_at g q"
        by (rule s(3) [rule_format, OF q(1) False])
      have ne: "(r, c) \<noteq> q" using False assms(4) by blast
      have nz: "cell_at s (r, c) \<noteq> 0" using rng by simp
      have "cell_at s (r, c) \<noteq> cell_at s q"
        by (rule grid_invD [OF s(1) rc q(1) ne q(2) nz])
      then show ?thesis using eq by simp
    qed
  qed
qed

lemma completion_gset:
  assumes "completion g s" "wf_grid g" "r < 9" "c < 9"
  shows "completion (gset g r c (cell_at s (r, c))) s"
proof -
  note s = completion_parts [OF assms(1)]
  have "cell_at s p = cell_at (gset g r c (cell_at s (r, c))) p"
    if "p \<in> set cells9" "cell_at (gset g r c (cell_at s (r, c))) p \<noteq> 0" for p
  proof (cases "p = (r, c)")
    case True
    then show ?thesis by (simp add: cell_at_gset [OF assms(2,3,4)])
  next
    case False
    then have "cell_at g p \<noteq> 0"
      using that(2) by (simp add: cell_at_gset [OF assms(2,3,4)])
    then have "cell_at s p = cell_at g p"
      by (rule s(3) [rule_format, OF that(1)])
    then show ?thesis
      using False by (simp add: cell_at_gset [OF assms(2,3,4)])
  qed
  then have "keeps (gset g r c (cell_at s (r, c))) s"
    unfolding keeps_iff by blast
  then show ?thesis
    using assms(1) by (simp add: completion_def)
qed

lemma completion_full:
  assumes "completion g s" "\<forall>p\<in>set cells9. cell_at g p \<noteq> 0"
  shows "solved g"
proof -
  note s = completion_parts [OF assms(1)]
  have eq: "cell_at g p = cell_at s p" if "p \<in> set cells9" for p
    using s(3) [rule_format, OF that] assms(2) [rule_format, OF that] by simp
  have "grid_inv g"
    unfolding grid_inv_iff
  proof (intro ballI impI, elim conjE)
    fix p q assume pq: "p \<in> set cells9" "q \<in> set cells9" "p \<noteq> q" "same_unit p q"
      "cell_at g p \<noteq> 0"
    have "cell_at s p \<noteq> cell_at s q"
      using grid_invD [OF s(1) pq(1,2,3,4)] pq(5) eq [OF pq(1)] by simp
    then show "cell_at g p \<noteq> cell_at g q"
      by (simp add: eq [OF pq(1)] eq [OF pq(2)])
  qed
  moreover have "\<forall>p\<in>set cells9. 1 \<le> cell_at g p \<and> cell_at g p \<le> 9"
  proof
    fix p assume p: "p \<in> set cells9"
    show "1 \<le> cell_at g p \<and> cell_at g p \<le> 9"
      using s(2) [rule_format, OF p] by (simp add: eq [OF p])
  qed
  ultimately show ?thesis by (rule solvedI)
qed

section \<open>The search\<close>

declare solve.simps [simp del] try_values.simps [simp del]
declare solve_trace.simps [simp del] try_values_trace.simps [simp del]

subsection \<open>One step of \<open>solve\<close> on a well-formed solver\<close>

lemma solve_cases:
  assumes "wf_solver h self"
  shows "((\<forall>p\<in>set cells9. cell_at (view h self) p \<noteq> 0) \<and>
          (\<forall>d. solve d h self = Some (Inr (True, h)) \<and> solve_trace d h self = [])) \<or>
         (\<exists>r c. cand (view h self) r c (domain_of (view h self) r c) \<and>
            cell_at (view h self) (r, c) = 0 \<and>
            (\<forall>d. solve d h self = try_values d h self r c (domain_of (view h self) r c) \<and>
                 solve_trace d h self = try_values_trace d h self r c (domain_of (view h self) r c)))"
proof -
  let ?g = "view h self"
  from find_mrv_cell_cases [OF wf_solver_view [OF assms]] show ?thesis
  proof
    assume a: "find_mrv_cell ?g = Inr None \<and> (\<forall>p\<in>set cells9. cell_at ?g p \<noteq> 0)"
    then have "solve d h self = Some (Inr (True, h)) \<and> solve_trace d h self = []" for d
      by (simp add: solve.simps solve_trace.simps)
    with a show ?thesis by blast
  next
    assume "\<exists>q. mrv_pick ?g cells9 10 q \<and>
              find_mrv_cell ?g = Inr (Some (fst q, snd q, domain_of ?g (fst q) (snd q)))"
    then obtain q where pick: "mrv_pick ?g cells9 10 q"
      and res: "find_mrv_cell ?g = Inr (Some (fst q, snd q, domain_of ?g (fst q) (snd q)))"
      by blast
    note q = mrv_pick_cells9(1,2,3) [OF pick]
    have e: "cell_at ?g (fst q, snd q) = 0" using q(3) by simp
    have c: "cand ?g (fst q) (snd q) (domain_of ?g (fst q) (snd q))"
      unfolding cand_def using q(1,2) e by (simp add: set_dom)
    have "solve d h self = try_values d h self (fst q) (snd q) (domain_of ?g (fst q) (snd q)) \<and>
        solve_trace d h self =
          try_values_trace d h self (fst q) (snd q) (domain_of ?g (fst q) (snd q))" for d
      by (simp add: solve.simps solve_trace.simps res try_values.simps try_values_trace.simps)
    with c e show ?thesis by blast
  qed
qed

lemma try_values_Nil: "try_values d h self r c [] = Some (Inr (False, h))"
  by (simp add: try_values.simps)

lemma try_values_0:
  "wf_solver h self \<Longrightarrow> r < 9 \<Longrightarrow> c < 9 \<Longrightarrow> try_values 0 h self r c (num # nums) = None"
  by (simp add: try_values.simps setitem_wf)

lemma try_values_Suc:
  "wf_solver h self \<Longrightarrow> r < 9 \<Longrightarrow> c < 9 \<Longrightarrow>
   try_values (Suc d) h self r c (num # nums) =
     (case solve d (place h self r c num) self of
        None \<Rightarrow> None
      | Some (Inl e) \<Rightarrow> Some (Inl e)
      | Some (Inr (True, h2)) \<Rightarrow> Some (Inr (True, h2))
      | Some (Inr (False, h2)) \<Rightarrow>
          (case setitem h2 self r c 0 of
             Inl e \<Rightarrow> Some (Inl e)
           | Inr h3 \<Rightarrow> try_values (Suc d) h3 self r c nums))"
  by (simp add: try_values.simps setitem_wf)

subsection \<open>What a returning call leaves behind\<close>

lemma fills_refl: "\<forall>p\<in>set cells9. cell_at g p \<noteq> 0 \<Longrightarrow> fills g g"
  by (simp add: fills_def)

lemma solve_post_same: "wf_solver h self \<Longrightarrow> solve_post h self False h"
  by (simp add: solve_post_def)

lemma solve_post_full:
  "wf_solver h self \<Longrightarrow> \<forall>p\<in>set cells9. cell_at (view h self) p \<noteq> 0 \<Longrightarrow>
   solve_post h self True h"
  by (simp add: solve_post_def fills_refl)

lemma fills_step:
  assumes "wf_grid g" "cand g r c (num # nums)" "fills (gset g r c num) g'"
  shows "fills g g'"
proof -
  from assms(2) have rc: "r < 9" "c < 9" and e: "cell_at g (r, c) = 0"
    and n: "1 \<le> num" "num \<le> 9" "conflict_free g r c num"
    by (simp_all add: cand_def)
  note at = cell_at_gset [OF assms(1) rc]
  from assms(3) have f1: "\<forall>p\<in>set cells9. cell_at g' p \<noteq> 0"
    and f2: "\<And>p. p \<in> set cells9 \<Longrightarrow> cell_at (gset g r c num) p \<noteq> 0 \<Longrightarrow>
          cell_at g' p = cell_at (gset g r c num) p"
    and f3: "\<And>p. p \<in> set cells9 \<Longrightarrow> cell_at (gset g r c num) p = 0 \<Longrightarrow>
          1 \<le> cell_at g' p \<and> cell_at g' p \<le> 9"
    and f4: "grid_inv (gset g r c num) \<Longrightarrow> grid_inv g'"
    by (simp_all add: fills_def)
  have k: "cell_at g' p = cell_at g p" if "p \<in> set cells9" "cell_at g p \<noteq> 0" for p
  proof -
    have "p \<noteq> (r, c)" using that(2) e by blast
    then show ?thesis using f2 [OF that(1)] that(2) by (simp add: at)
  qed
  have d: "1 \<le> cell_at g' p \<and> cell_at g' p \<le> 9" if "p \<in> set cells9" "cell_at g p = 0" for p
  proof (cases "p = (r, c)")
    case True
    then have "cell_at g' p = num"
      using f2 [OF that(1)] n(1) by (simp add: at)
    then show ?thesis using n(1,2) by simp
  next
    case False
    then show ?thesis using f3 [OF that(1)] that(2) by (simp add: at)
  qed
  have i: "grid_inv g'" if "grid_inv g"
    by (rule f4 [OF grid_inv_gset [OF assms(1) rc that n(3)]])
  show ?thesis
    unfolding fills_def using f1 k d i by blast
qed

lemma solve_post_step:
  assumes "wf_solver h self" "cand (view h self) r c (num # nums)"
    "solve_post (place h self r c num) self True h'"
  shows "solve_post h self True h'"
proof -
  from assms(2) have rc: "r < 9" "c < 9" by (simp_all add: cand_def)
  have len: "length self = 9" using assms(1) by (simp add: wf_solver_def)
  from assms(3) have p: "wf_solver h' self" "length h' = length (place h self r c num)"
    "\<And>a. a \<notin> set self \<Longrightarrow> h' ! a = place h self r c num ! a"
    "fills (view (place h self r c num) self) (view h' self)"
    by (simp_all add: solve_post_def)
  have "fills (view h self) (view h' self)"
    using p(4) unfolding view_place [OF assms(1) rc(1)]
    by (rule fills_step [OF wf_solver_view [OF assms(1)] assms(2)])
  moreover have "h' ! a = h ! a" if "a \<notin> set self" for a
    using p(3) [OF that] place_frame [OF len rc(1) that] by simp
  ultimately show ?thesis
    using p(1,2) by (simp add: solve_post_def length_place)
qed

lemma cand_tail: "cand g r c (num # nums) \<Longrightarrow> cand g r c nums"
  by (simp add: cand_def)

lemma try_values_post:
  assumes IH: "\<And>d' h b h'. d = Suc d' \<Longrightarrow> wf_solver h self \<Longrightarrow>
      solve d' h self = Some (Inr (b, h')) \<Longrightarrow> solve_post h self b h'"
    and wf: "wf_solver h self"
  shows "cand (view h self) r c nums \<Longrightarrow> try_values d h self r c nums = Some (Inr (b, h')) \<Longrightarrow>
    solve_post h self b h'"
proof (induction nums)
  case Nil
  then show ?case
    using wf by (simp add: try_values_Nil solve_post_same)
next
  case (Cons num nums)
  from Cons.prems(1) have rc: "r < 9" "c < 9" and e: "cell_at (view h self) (r, c) = 0"
    by (simp_all add: cand_def)
  let ?h1 = "place h self r c num"
  have wf1: "wf_solver ?h1 self" by (rule wf_place [OF wf rc(1)])
  show ?case
  proof (cases d)
    case 0
    then show ?thesis
      using Cons.prems(2) by (simp add: try_values_0 [OF wf rc])
  next
    case (Suc d')
    note eq = Cons.prems(2) [unfolded Suc try_values_Suc [OF wf rc]]
    show ?thesis
    proof (cases "solve d' ?h1 self")
      case None
      then show ?thesis using eq by simp
    next
      case (Some res)
      show ?thesis
      proof (cases res)
        case (Inl err)
        then show ?thesis using eq Some by simp
      next
        case (Inr bh)
        obtain b1 h2 where bh: "bh = (b1, h2)" by (cases bh)
        have sol: "solve d' ?h1 self = Some (Inr (b1, h2))"
          using Some Inr bh by simp
        note post1 = IH [OF Suc wf1 sol]
        show ?thesis
        proof (cases b1)
          case True
          then have "b = True" "h' = h2"
            using eq sol by simp_all
          then show ?thesis
            using solve_post_step [OF wf Cons.prems(1)] post1 True by simp
        next
          case False
          then have h2: "h2 = ?h1"
            using post1 by (simp add: solve_post_def)
          have undo: "setitem h2 self r c 0 = Inr h"
            unfolding h2 by (simp add: setitem_wf [OF wf1 rc] place_undo [OF wf rc e])
          have "try_values d h self r c nums = Some (Inr (b, h'))"
            using eq sol False undo Suc by simp
          then show ?thesis
            by (rule Cons.IH [OF cand_tail [OF Cons.prems(1)]])
        qed
      qed
    qed
  qed
qed

lemma solve_post:
  "wf_solver h self \<Longrightarrow> solve d h self = Some (Inr (b, h')) \<Longrightarrow> solve_post h self b h'"
proof (induction d arbitrary: h b h' rule: less_induct)
  case (less d)
  have IH: "solve_post h0 self b0 h0'"
    if "d = Suc d'" "wf_solver h0 self" "solve d' h0 self = Some (Inr (b0, h0'))"
    for d' h0 b0 h0'
    using less.IH [of d' h0 b0 h0'] that by simp
  from solve_cases [OF less.prems(1)] show ?case
  proof (elim disjE conjE exE)
    assume "\<forall>p\<in>set cells9. cell_at (view h self) p \<noteq> 0"
      "\<forall>d. solve d h self = Some (Inr (True, h)) \<and> solve_trace d h self = []"
    then show ?thesis
      using less.prems by (simp add: solve_post_full)
  next
    fix r c
    assume c: "cand (view h self) r c (domain_of (view h self) r c)"
      and s: "\<forall>d. solve d h self = try_values d h self r c (domain_of (view h self) r c) \<and>
                 solve_trace d h self = try_values_trace d h self r c (domain_of (view h self) r c)"
    from s less.prems(2)
    have tv: "try_values d h self r c (domain_of (view h self) r c) = Some (Inr (b, h'))"
      by simp
    show ?thesis
    proof (rule try_values_post [OF _ less.prems(1) c tv])
      fix d' h0 b0 h0'
      assume "d = Suc d'" "wf_solver h0 self" "solve d' h0 self = Some (Inr (b0, h0'))"
      then show "solve_post h0 self b0 h0'" by (rule IH)
    qed
  qed
qed

lemma try_values_restore:
  assumes "wf_solver h self" "cand (view h self) r c (num # nums)"
    "solve d (place h self r c num) self = Some (Inr (False, h2))"
  shows "h2 = place h self r c num" "setitem h2 self r c 0 = Inr h"
proof -
  from assms(2) have rc: "r < 9" "c < 9" and e: "cell_at (view h self) (r, c) = 0"
    by (simp_all add: cand_def)
  have wf1: "wf_solver (place h self r c num) self" by (rule wf_place [OF assms(1) rc(1)])
  show h2: "h2 = place h self r c num"
    using solve_post [OF wf1 assms(3)] by (simp add: solve_post_def)
  show "setitem h2 self r c 0 = Inr h"
    unfolding h2 by (simp add: setitem_wf [OF wf1 rc] place_undo [OF assms(1) rc e])
qed

subsection \<open>The loop after a failed attempt\<close>

lemma try_values_step:
  assumes "wf_solver h self" "cand (view h self) r c (num # nums)"
  shows "try_values (Suc d) h self r c (num # nums) =
     (case solve d (place h self r c num) self of
        None \<Rightarrow> None
      | Some (Inl e) \<Rightarrow> Some (Inl e)
      | Some (Inr (b, h2)) \<Rightarrow>
          if b then Some (Inr (True, h2)) else try_values (Suc d) h self r c nums)"
proof -
  from assms(2) have rc: "r < 9" "c < 9" by (simp_all add: cand_def)
  show ?thesis
  proof (cases "solve d (place h self r c num) self")
    case None
    then show ?thesis by (simp add: try_values_Suc [OF assms(1) rc])
  next
    case (Some res)
    show ?thesis
    proof (cases res)
      case (Inl e)
      then show ?thesis using Some by (simp add: try_values_Suc [OF assms(1) rc])
    next
      case (Inr bh)
      obtain b h2 where bh: "bh = (b, h2)" by (cases bh)
      show ?thesis
      proof (cases b)
        case True
        then show ?thesis
          using Some Inr bh by (simp add: try_values_Suc [OF assms(1) rc])
      next
        case False
        then have sol: "solve d (place h self r c num) self = Some (Inr (False, h2))"
          using Some Inr bh by simp
        show ?thesis
          using sol try_values_restore(2) [OF assms sol]
          by (simp add: try_values_Suc [OF assms(1) rc])
      qed
    qed
  qed
qed

subsection \<open>Termination within the depth bound\<close>

lemma empties_pos:
  assumes "r < 9" "c < 9" "cell_at g (r, c) = 0"
  shows "0 < empties g"
proof -
  have "(r, c) \<in> set cells9" using assms(1,2) by (simp add: set_cells9)
  then have "\<not> (\<forall>p\<in>set cells9. cell_at g p \<noteq> 0)" using assms(3) by blast
  then show ?thesis by (simp add: empties_zero [symmetric])
qed

lemma empties_place:
  assumes "wf_solver h self" "cand (view h self) r c (num # nums)"
  shows "empties (view (place h self r c num) self) < empties (view h self)"
proof -
  from assms(2) have rc: "r < 9" "c < 9" and e: "cell_at (view h self) (r, c) = 0"
    and n: "num \<noteq> 0"
    by (auto simp: cand_def)
  show ?thesis
    unfolding view_place [OF assms(1) rc(1)]
    by (rule empties_gset [OF wf_solver_view [OF assms(1)] rc e n])
qed

lemma try_values_returns:
  assumes IH: "\<And>d' h. d = Suc d' \<Longrightarrow> wf_solver h self \<Longrightarrow> empties (view h self) \<le> d' \<Longrightarrow>
      \<exists>b h'. solve d' h self = Some (Inr (b, h'))"
    and wf: "wf_solver h self" and le: "empties (view h self) \<le> d"
  shows "cand (view h self) r c nums \<Longrightarrow> \<exists>b h'. try_values d h self r c nums = Some (Inr (b, h'))"
proof (induction nums)
  case Nil
  show ?case by (intro exI) (rule try_values_Nil)
next
  case (Cons num nums)
  from Cons.prems have rc: "r < 9" "c < 9" and e: "cell_at (view h self) (r, c) = 0"
    by (simp_all add: cand_def)
  let ?h1 = "place h self r c num"
  from empties_pos [OF rc e] le obtain d' where d: "d = Suc d'"
    by (cases d) simp_all
  have "empties (view ?h1 self) \<le> d'"
    using empties_place [OF wf Cons.prems] le d by simp
  from IH [OF d wf_place [OF wf rc(1)] this]
  obtain b1 h2 where sol: "solve d' ?h1 self = Some (Inr (b1, h2))" by blast
  show ?case
  proof (cases b1)
    case True
    then have "try_values d h self r c (num # nums) = Some (Inr (True, h2))"
      unfolding d try_values_step [OF wf Cons.prems] using sol by simp
    then show ?thesis by blast
  next
    case False
    then have "try_values d h self r c (num # nums) = try_values d h self r c nums"
      unfolding d try_values_step [OF wf Cons.prems] using sol by simp
    then show ?thesis
      using Cons.IH [OF cand_tail [OF Cons.prems]] by simp
  qed
qed

lemma solve_returns:
  "wf_solver h self \<Longrightarrow> empties (view h self) \<le> d \<Longrightarrow>
   \<exists>b h'. solve d h self = Some (Inr (b, h'))"
proof (induction d arbitrary: h rule: less_induct)
  case (less d)
  from solve_cases [OF less.prems(1)] show ?case
  proof (elim disjE conjE exE)
    assume "\<forall>d. solve d h self = Some (Inr (True, h)) \<and> solve_trace d h self = []"
    then show ?thesis by blast
  next
    fix r c
    assume c: "cand (view h self) r c (domain_of (view h self) r c)"
      and s: "\<forall>d. solve d h self = try_values d h self r c (domain_of (view h self) r c) \<and>
                 solve_trace d h self = try_values_trace d h self r c (domain_of (view h self) r c)"
    have "\<exists>b h'. try_values d h self r c (domain_of (view h self) r c) = Some (Inr (b, h'))"
    proof (rule try_values_returns [OF _ less.prems(1,2) c])
      fix d' h0
      assume "d = Suc d'" "wf_solver h0 self" "empties (view h0 self) \<le> d'"
      then show "\<exists>b h'. solve d' h0 self = Some (Inr (b, h'))"
        using less.IH [of d' h0] by simp
    qed
    then show ?thesis using s by simp
  qed
qed

subsection \<open>Completeness of the search\<close>

lemma try_values_complete:
  assumes IH: "\<And>d' h b h'. d = Suc d' \<Longrightarrow> wf_solver h self \<Longrightarrow>
      completion (view h self) s \<Longrightarrow> solve d' h self = Some (Inr (b, h')) \<Longrightarrow> b"
    and wf: "wf_solver h self" and comp: "completion (view h self) s"
  shows "cand (view h self) r c nums \<Longrightarrow> cell_at s (r, c) \<in> set nums \<Longrightarrow>
    try_values d h self r c nums = Some (Inr (b, h')) \<Longrightarrow> b"
proof (induction nums)
  case Nil
  then show ?case by simp
next
  case (Cons num nums)
  from Cons.prems(1) have rc: "r < 9" "c < 9"
    by (simp_all add: cand_def)
  let ?h1 = "place h self r c num"
  have wf1: "wf_solver ?h1 self" by (rule wf_place [OF wf rc(1)])
  show ?case
  proof (cases d)
    case 0
    then show ?thesis
      using Cons.prems(3) by (simp add: try_values_0 [OF wf rc])
  next
    case (Suc d')
    note eq = Cons.prems(3) [unfolded Suc try_values_step [OF wf Cons.prems(1)]]
    show ?thesis
    proof (cases "solve d' ?h1 self")
      case None
      then show ?thesis using eq by simp
    next
      case (Some res)
      show ?thesis
      proof (cases res)
        case (Inl err)
        then show ?thesis using eq Some by simp
      next
        case (Inr bh)
        obtain b1 h2 where bh: "bh = (b1, h2)" by (cases bh)
        have sol: "solve d' ?h1 self = Some (Inr (b1, h2))"
          using Some Inr bh by simp
        show ?thesis
        proof (cases b1)
          case True
          then show ?thesis using eq sol by simp
        next
          case False
          have ne: "num \<noteq> cell_at s (r, c)"
          proof
            assume n: "num = cell_at s (r, c)"
            have "completion (view ?h1 self) s"
              unfolding view_place [OF wf rc(1)] n
              by (rule completion_gset [OF comp wf_solver_view [OF wf] rc])
            from IH [OF Suc wf1 this sol] False show False by simp
          qed
          have "try_values d h self r c nums = Some (Inr (b, h'))"
            using eq sol False Suc by simp
          moreover have "cell_at s (r, c) \<in> set nums"
            using Cons.prems(2) ne by auto
          ultimately show ?thesis
            using Cons.IH [OF cand_tail [OF Cons.prems(1)]] by blast
        qed
      qed
    qed
  qed
qed

lemma solve_complete:
  "wf_solver h self \<Longrightarrow> completion (view h self) s \<Longrightarrow>
   solve d h self = Some (Inr (b, h')) \<Longrightarrow> b"
proof (induction d arbitrary: h b h' rule: less_induct)
  case (less d)
  from solve_cases [OF less.prems(1)] show ?case
  proof (elim disjE conjE exE)
    assume "\<forall>d. solve d h self = Some (Inr (True, h)) \<and> solve_trace d h self = []"
    then show ?thesis using less.prems(3) by simp
  next
    fix r c
    assume c: "cand (view h self) r c (domain_of (view h self) r c)"
      and e: "cell_at (view h self) (r, c) = 0"
      and s: "\<forall>d. solve d h self = try_values d h self r c (domain_of (view h self) r c) \<and>
                 solve_trace d h self = try_values_trace d h self r c (domain_of (view h self) r c)"
    from c have rc: "r < 9" "c < 9" by (simp_all add: cand_def)
    have mem: "cell_at s (r, c) \<in> set (domain_of (view h self) r c)"
      using completion_value [OF less.prems(2) rc e] by (simp add: set_dom)
    have tv: "try_values d h self r c (domain_of (view h self) r c) = Some (Inr (b, h'))"
      using s less.prems(3) by simp
    show ?thesis
    proof (rule try_values_complete [OF _ less.prems(1,2) c mem tv])
      fix d' h0 b0 h0'
      assume "d = Suc d'" "wf_solver h0 self" "completion (view h0 self) s"
        "solve d' h0 self = Some (Inr (b0, h0'))"
      then show b0
        using less.IH [of d' h0 b0 h0'] by simp
    qed
  qed
qed

lemma find_mrv_cell_cand:
  assumes "wf_grid g" "find_mrv_cell g = Inr (Some (r, c, ds))"
  shows "cand g r c ds"
proof -
  from find_mrv_cell_cases [OF assms(1)] assms(2)
  obtain q where pick: "mrv_pick g cells9 10 q"
    and res: "find_mrv_cell g = Inr (Some (fst q, snd q, domain_of g (fst q) (snd q)))"
    by auto
  from res assms(2) have eq: "r = fst q" "c = snd q" "ds = domain_of g (fst q) (snd q)"
    by simp_all
  note q = mrv_pick_cells9(1,2,3) [OF pick]
  show ?thesis
    unfolding cand_def eq using q by (simp add: set_dom)
qed

lemma cand_member: "cand g r c ds \<Longrightarrow> num \<in> set ds \<Longrightarrow> cand g r c [num]"
  by (simp add: cand_def)

lemma all_cells_iff:
  "(\<forall>p\<in>set cells9. P (cell_at g p)) = (\<forall>r<9. \<forall>c<9. P (g ! r ! c))"
  by (auto simp: set_cells9 cell_at_def)

subsection \<open>The concrete solver states\<close>

lemma wf_solver_puzzle9: "wf_solver puzzle9 rows9"
  by code_simp

lemma view_puzzle9: "view puzzle9 rows9 = puzzle9"
  by code_simp

lemma grid_inv_puzzle9: "grid_inv puzzle9"
  by code_simp

lemma completion_puzzle9: "completion puzzle9 solution9"
  by code_simp

lemma empties_puzzle9: "empties puzzle9 = 3"
  by code_simp

subsection \<open>The stores a run passes through\<close>

lemma step_ok_refl: "wf_solver h self \<Longrightarrow> step_ok h self h"
  by (simp add: step_ok_def)

lemma step_ok_trans:
  assumes "step_ok h self h1" "step_ok h1 self h2"
  shows "step_ok h self h2"
proof -
  have "cell_at (view h2 self) p = cell_at (view h self) p"
    if "p \<in> set cells9" "cell_at (view h self) p \<noteq> 0" for p
  proof -
    have 1: "cell_at (view h1 self) p = cell_at (view h self) p"
      using assms(1) that by (simp add: step_ok_def)
    then have "cell_at (view h1 self) p \<noteq> 0" using that(2) by simp
    then have "cell_at (view h2 self) p = cell_at (view h1 self) p"
      using assms(2) that(1) by (simp add: step_ok_def)
    then show ?thesis using 1 by simp
  qed
  moreover have "grid_inv (view h2 self)" if "grid_inv (view h self)"
    using assms that by (simp add: step_ok_def)
  moreover have "wf_solver h2 self"
    using assms(2) by (simp add: step_ok_def)
  ultimately show ?thesis
    unfolding step_ok_def by blast
qed

lemma step_ok_place:
  assumes "wf_solver h self" "cand (view h self) r c (num # nums)"
  shows "step_ok h self (place h self r c num)"
proof -
  from assms(2) have rc: "r < 9" "c < 9" and e: "cell_at (view h self) (r, c) = 0"
    and n: "conflict_free (view h self) r c num"
    by (simp_all add: cand_def)
  note wfg = wf_solver_view [OF assms(1)]
  have "cell_at (gset (view h self) r c num) p = cell_at (view h self) p"
    if "cell_at (view h self) p \<noteq> 0" for p
  proof -
    have "p \<noteq> (r, c)" using that e by blast
    then show ?thesis by (simp add: cell_at_gset [OF wfg rc])
  qed
  moreover have "grid_inv (gset (view h self) r c num)" if "grid_inv (view h self)"
    by (rule grid_inv_gset [OF wfg rc that n])
  ultimately show ?thesis
    unfolding step_ok_def view_place [OF assms(1) rc(1)]
    using wf_place [OF assms(1) rc(1)] by blast
qed

lemma try_values_trace_Nil: "try_values_trace d h self r c [] = []"
  by (simp add: try_values_trace.simps)

lemma try_values_trace_0:
  "wf_solver h self \<Longrightarrow> r < 9 \<Longrightarrow> c < 9 \<Longrightarrow>
   try_values_trace 0 h self r c (num # nums) = [place h self r c num]"
  by (simp add: try_values_trace.simps setitem_wf)

lemma try_values_trace_Suc:
  assumes "wf_solver h self" "cand (view h self) r c (num # nums)"
  shows "set (try_values_trace (Suc d) h self r c (num # nums)) \<subseteq>
     insert (place h self r c num) (insert h
       (set (solve_trace d (place h self r c num) self) \<union>
        set (try_values_trace (Suc d) h self r c nums)))"
proof -
  from assms(2) have rc: "r < 9" "c < 9" by (simp_all add: cand_def)
  let ?h1 = "place h self r c num"
  have eq: "try_values_trace (Suc d) h self r c (num # nums) =
      ?h1 # solve_trace d ?h1 self @
        (case solve d ?h1 self of
           Some (Inr (False, h2)) \<Rightarrow>
             (case setitem h2 self r c 0 of
                Inl e \<Rightarrow> []
              | Inr h3 \<Rightarrow> h3 # try_values_trace (Suc d) h3 self r c nums)
         | _ \<Rightarrow> [])"
    by (simp add: try_values_trace.simps setitem_wf [OF assms(1) rc])
  show ?thesis
  proof (cases "\<exists>h2. solve d ?h1 self = Some (Inr (False, h2))")
    case True
    then obtain h2 where sol: "solve d ?h1 self = Some (Inr (False, h2))" by blast
    show ?thesis
      unfolding eq using sol try_values_restore(2) [OF assms sol] by auto
  next
    case False
    then have "(case solve d ?h1 self of
           Some (Inr (False, h2)) \<Rightarrow>
             (case setitem h2 self r c 0 of
                Inl e \<Rightarrow> []
              | Inr h3 \<Rightarrow> h3 # try_values_trace (Suc d) h3 self r c nums)
         | _ \<Rightarrow> []) = []"
      by (auto split: option.splits sum.splits bool.splits prod.splits)
    then show ?thesis
      unfolding eq by auto
  qed
qed

lemma try_values_trace_ok:
  assumes IH: "\<And>d' h h''. d = Suc d' \<Longrightarrow> wf_solver h self \<Longrightarrow>
      h'' \<in> set (solve_trace d' h self) \<Longrightarrow> step_ok h self h''"
    and wf: "wf_solver h self"
  shows "cand (view h self) r c nums \<Longrightarrow> h'' \<in> set (try_values_trace d h self r c nums) \<Longrightarrow>
    step_ok h self h''"
proof (induction nums)
  case Nil
  then show ?case by (simp add: try_values_trace_Nil)
next
  case (Cons num nums)
  from Cons.prems(1) have rc: "r < 9" "c < 9" by (simp_all add: cand_def)
  let ?h1 = "place h self r c num"
  note ok1 = step_ok_place [OF wf Cons.prems(1)]
  show ?case
  proof (cases d)
    case 0
    then show ?thesis
      using Cons.prems(2) ok1 by (simp add: try_values_trace_0 [OF wf rc])
  next
    case (Suc d')
    from Cons.prems(2) try_values_trace_Suc [OF wf Cons.prems(1), of d']
    consider "h'' = ?h1" | "h'' = h" | "h'' \<in> set (solve_trace d' ?h1 self)"
      | "h'' \<in> set (try_values_trace d h self r c nums)"
      unfolding Suc by blast
    then show ?thesis
    proof cases
      case 1
      then show ?thesis using ok1 by simp
    next
      case 2
      then show ?thesis using step_ok_refl [OF wf] by simp
    next
      case 3
      have "step_ok ?h1 self h''"
        by (rule IH [OF Suc wf_place [OF wf rc(1)] 3])
      with ok1 show ?thesis by (rule step_ok_trans)
    next
      case 4
      then show ?thesis by (rule Cons.IH [OF cand_tail [OF Cons.prems(1)]])
    qed
  qed
qed

lemma solve_trace_ok:
  "wf_solver h self \<Longrightarrow> h'' \<in> set (solve_trace d h self) \<Longrightarrow> step_ok h self h''"
proof (induction d arbitrary: h h'' rule: less_induct)
  case (less d)
  from solve_cases [OF less.prems(1)] show ?case
  proof (elim disjE conjE exE)
    assume "\<forall>d. solve d h self = Some (Inr (True, h)) \<and> solve_trace d h self = []"
    then show ?thesis using less.prems(2) by simp
  next
    fix r c
    assume c: "cand (view h self) r c (domain_of (view h self) r c)"
      and s: "\<forall>d. solve d h self = try_values d h self r c (domain_of (view h self) r c) \<and>
                 solve_trace d h self = try_values_trace d h self r c (domain_of (view h self) r c)"
    have tv: "h'' \<in> set (try_values_trace d h self r c (domain_of (view h self) r c))"
      using s less.prems(2) by simp
    show ?thesis
    proof (rule try_values_trace_ok [OF _ less.prems(1) c tv])
      fix d' h0 h0''
      assume "d = Suc d'" "wf_solver h0 self" "h0'' \<in> set (solve_trace d' h0 self)"
      then show "step_ok h0 self h0''"
        using less.IH [of d' h0 h0''] by simp
    qed
  qed
qed

subsection \<open>The copy made by \<open>__init__\<close>\<close>

lemma copy_rows_spec:
  "\<forall>a\<in>set rows. a < length h \<Longrightarrow>
   copy_rows h rows = (h @ map (\<lambda>a. h ! a) rows, [length h..<length h + length rows])"
proof (induction rows arbitrary: h)
  case Nil
  then show ?case by simp
next
  case (Cons a as)
  have lt: "\<forall>x\<in>set as. x < length (h @ [h ! a])"
    using Cons.prems by auto
  have m: "map (\<lambda>x. (h @ [h ! a]) ! x) as = map (\<lambda>x. h ! x) as"
    using Cons.prems by (intro map_cong refl) (simp add: nth_append)
  have u: "[length h..<length h + length (a # as)] =
      length h # [Suc (length h)..<Suc (length h) + length as]"
    by (simp add: upt_conv_Cons del: upt_Suc)
  have "copy_rows (h @ [h ! a]) as =
      (h @ h ! a # map (\<lambda>x. h ! x) as, [Suc (length h)..<Suc (length h) + length as])"
    using Cons.IH [OF lt] m by (simp del: upt_Suc)
  then show ?case
    unfolding u by (simp del: upt_Suc)
qed

lemma init_spec:
  assumes "grid9 h grid" "init h grid = (h0, self)"
  shows "wf_solver h0 self" and "view h0 self = view h grid"
    and "length h \<le> length h0" and "\<And>a. a < length h \<Longrightarrow> h0 ! a = h ! a"
    and "\<And>a. a \<in> set self \<Longrightarrow> length h \<le> a"
proof -
  from assms(1) have len: "length grid = 9"
    and rows: "\<forall>a\<in>set grid. a < length h \<and> length (h ! a) = 9"
    by (simp_all add: grid9_def list_all_iff)
  from rows have "\<forall>a\<in>set grid. a < length h" by blast
  from copy_rows_spec [OF this] assms(2)
  have h0: "h0 = h @ map (\<lambda>a. h ! a) grid" and self: "self = [length h..<length h + 9]"
    by (simp_all add: init_def len)
  show "length h \<le> length h0" by (simp add: h0)
  show "h0 ! a = h ! a" if "a < length h" for a
    using that by (simp add: h0 nth_append)
  show "length h \<le> a" if "a \<in> set self" for a
    using that by (simp add: self)
  have nth: "h0 ! (length h + i) = h ! (grid ! i)" if "i < 9" for i
    using that len by (simp add: h0 nth_append)
  show "view h0 self = view h grid"
  proof (rule nth_equalityI)
    show "length (view h0 self) = length (view h grid)"
      by (simp add: view_def self len)
    fix i assume "i < length (view h0 self)"
    then have i: "i < 9" by (simp add: view_def self)
    then show "view h0 self ! i = view h grid ! i"
      using nth [OF i] len by (simp add: view_def self)
  qed
  have "a < length h0 \<and> length (h0 ! a) = 9" if "a \<in> set self" for a
  proof -
    from that obtain i where i: "i < 9" "a = length h + i"
      by (auto simp: self intro: that [of "a - length h"] dest: le_Suc_ex)
    have "grid ! i \<in> set grid" using i(1) len by simp
    then have "length (h ! (grid ! i)) = 9" using rows by blast
    then show ?thesis
      using i len nth [OF i(1)] by (simp add: h0)
  qed
  then show "wf_solver h0 self"
    unfolding wf_solver_def list_all_iff by (simp add: self)
qed

lemma digits_iff: "digits g = (\<forall>p\<in>set cells9. 0 \<le> cell_at g p \<and> cell_at g p \<le> 9)"
  by (simp add: digits_def list_all_iff)

section \<open>Claims\<close>

text \<open>
  C1. For a solver on a 9x9 grid that satisfies the uniqueness invariant and has a legal
  completion \<open>s\<close>, \<open>solve\<close> (allowed a recursion depth of at least the number of empty
  cells) returns \<open>True\<close>, and the solver's grid is then a complete valid Sudoku: every cell
  holds a digit of 1..9 and every row, column and box is a permutation of 1..9.
\<close>

theorem solve_solves:
  assumes "wf_solver h self" "grid_inv (view h self)" "completion (view h self) s"
    "empties (view h self) \<le> d"
  shows "\<exists>h'. solve d h self = Some (Inr (True, h')) \<and> solved (view h' self) \<and>
    (\<forall>r<9. \<forall>c<9. 1 \<le> view h' self ! r ! c \<and> view h' self ! r ! c \<le> 9)"
proof -
  from solve_returns [OF assms(1,4)]
  obtain b h' where sol: "solve d h self = Some (Inr (b, h'))" by blast
  have b: b by (rule solve_complete [OF assms(1,3) sol])
  from solve_post [OF assms(1) sol] b have f: "fills (view h self) (view h' self)"
    by (simp add: solve_post_def)
  note s = completion_parts [OF assms(3)]
  have inv: "grid_inv (view h' self)"
    using f assms(2) by (simp add: fills_def)
  have rng: "\<forall>p\<in>set cells9. 1 \<le> cell_at (view h' self) p \<and> cell_at (view h' self) p \<le> 9"
  proof
    fix p assume p: "p \<in> set cells9"
    show "1 \<le> cell_at (view h' self) p \<and> cell_at (view h' self) p \<le> 9"
    proof (cases "cell_at (view h self) p = 0")
      case True
      then show ?thesis using f p by (simp add: fills_def)
    next
      case False
      then have "cell_at (view h' self) p = cell_at (view h self) p"
        using f p by (simp add: fills_def)
      also have "\<dots> = cell_at s p"
        using s(3) [rule_format, OF p False] by simp
      finally show ?thesis
        using s(2) [rule_format, OF p] by simp
    qed
  qed
  have "solved (view h' self)" by (rule solvedI [OF inv rng])
  moreover have "\<forall>r<9. \<forall>c<9. 1 \<le> view h' self ! r ! c \<and> view h' self ! r ! c \<le> 9"
    using rng [unfolded all_cells_iff [of "\<lambda>v. 1 \<le> v \<and> v \<le> 9"]] .
  moreover have "solve d h self = Some (Inr (True, h'))"
    using sol b by simp
  ultimately show ?thesis
    by (intro exI [of _ h'] conjI)
qed

theorem solve_solves_witness:
  "wf_solver puzzle9 rows9 \<and> grid_inv (view puzzle9 rows9) \<and>
   completion (view puzzle9 rows9) solution9 \<and> empties (view puzzle9 rows9) \<le> 3 \<and>
   (\<exists>h'. solve 3 puzzle9 rows9 = Some (Inr (True, h')) \<and> solved (view h' rows9))"
proof -
  have 1: "grid_inv (view puzzle9 rows9)"
    and 2: "completion (view puzzle9 rows9) solution9"
    and 3: "empties (view puzzle9 rows9) \<le> 3"
    by (simp_all add: view_puzzle9 grid_inv_puzzle9 completion_puzzle9 empties_puzzle9)
  from solve_solves [OF wf_solver_puzzle9 1 2 3]
  have "\<exists>h'. solve 3 puzzle9 rows9 = Some (Inr (True, h')) \<and> solved (view h' rows9)"
    by blast
  then show ?thesis
    using wf_solver_puzzle9 1 2 3 by blast
qed

text \<open>
  C2. For a solver on a 9x9 grid, whatever the grid holds: when \<open>solve\<close> returns \<open>False\<close>,
  the store at the return is the store at the call, so the solver's grid is back in its
  state before the call and every placement of the failed search has been undone.
\<close>

theorem solve_failure_restores:
  assumes "wf_solver h self" "solve d h self = Some (Inr (False, h'))"
  shows "h' = h \<and> view h' self = view h self"
  using solve_post [OF assms] by (simp add: solve_post_def)

theorem solve_failure_restores_witness:
  "wf_solver stuck9 rows9 \<and>
   (\<exists>h'. solve 2 stuck9 rows9 = Some (Inr (False, h')) \<and> view h' rows9 = view stuck9 rows9)"
proof -
  have w: "wf_solver stuck9 rows9" by code_simp
  have f: "solve 2 stuck9 rows9 = Some (Inr (False, stuck9))" by code_simp
  from solve_failure_restores [OF w f] w f show ?thesis
    by blast
qed

text \<open>
  C3, as the code has it. \<open>__init__\<close> copies every row of the grid it is given, and \<open>solve\<close>
  writes to the copies only. For a 9x9 grid of digits 0..9 that satisfies the uniqueness
  invariant: when \<open>solve\<close> returns \<open>True\<close>, the solver's own grid holds a complete valid
  Sudoku that keeps the filled cells of the caller's grid, and the caller's grid object holds
  what it held before.
\<close>

theorem solve_private_copy:
  assumes "grid9 h grid" "digits (view h grid)" "grid_inv (view h grid)"
    "init h grid = (h0, self)" "solve d h0 self = Some (Inr (True, h'))"
  shows "view h' grid = view h grid \<and> solved (view h' self) \<and>
    keeps (view h grid) (view h' self)"
proof -
  note i = init_spec [OF assms(1,4)]
  from solve_post [OF i(1) assms(5)]
  have frame: "\<And>a. a \<notin> set self \<Longrightarrow> h' ! a = h0 ! a"
    and f: "fills (view h grid) (view h' self)"
    by (simp_all add: solve_post_def i(2))
  have "h' ! a = h ! a" if "a \<in> set grid" for a
  proof -
    have lt: "a < length h"
      using assms(1) that by (simp add: grid9_def list_all_iff)
    then have "a \<notin> set self" using i(5) [of a] by auto
    then show ?thesis using frame i(4) [OF lt] by simp
  qed
  then have 1: "view h' grid = view h grid"
    by (simp add: view_def)
  have inv: "grid_inv (view h' self)"
    using f assms(3) by (simp add: fills_def)
  have rng: "\<forall>p\<in>set cells9. 1 \<le> cell_at (view h' self) p \<and> cell_at (view h' self) p \<le> 9"
  proof
    fix p assume p: "p \<in> set cells9"
    show "1 \<le> cell_at (view h' self) p \<and> cell_at (view h' self) p \<le> 9"
    proof (cases "cell_at (view h grid) p = 0")
      case True
      then show ?thesis using f p by (simp add: fills_def)
    next
      case False
      then have "cell_at (view h' self) p = cell_at (view h grid) p"
        using f p by (simp add: fills_def)
      then show ?thesis
        using assms(2) [unfolded digits_iff, rule_format, OF p] False by simp
    qed
  qed
  have 2: "solved (view h' self)" by (rule solvedI [OF inv rng])
  have 3: "keeps (view h grid) (view h' self)"
    using f unfolding keeps_iff by (simp add: fills_def)
  show ?thesis using 1 2 3 by blast
qed

theorem solve_private_copy_witness:
  "grid9 puzzle9 rows9 \<and> digits (view puzzle9 rows9) \<and> grid_inv (view puzzle9 rows9) \<and>
   init puzzle9 rows9 = (puzzle9 @ puzzle9, [9..<18]) \<and>
   solve 3 (puzzle9 @ puzzle9) [9..<18] = Some (Inr (True, puzzle9 @ solution9)) \<and>
   view (puzzle9 @ solution9) rows9 = view puzzle9 rows9 \<and>
   solved (view (puzzle9 @ solution9) [9..<18])"
proof -
  have 1: "grid9 puzzle9 rows9" by code_simp
  have 2: "digits (view puzzle9 rows9)" by code_simp
  have 3: "grid_inv (view puzzle9 rows9)"
    by (simp add: view_puzzle9 grid_inv_puzzle9)
  have 4: "init puzzle9 rows9 = (puzzle9 @ puzzle9, [9..<18])" by code_simp
  have 5: "solve 3 (puzzle9 @ puzzle9) [9..<18] = Some (Inr (True, puzzle9 @ solution9))"
    by code_simp
  from solve_private_copy [OF 1 2 3 4 5] 1 2 3 4 5 show ?thesis
    by blast
qed

text \<open>
  The claim as stated fails. After \<open>SudokuCSP(puzzle).solve()\<close> has returned \<open>True\<close> on the
  grid \<open>puzzle9\<close>, the caller's grid is \<open>puzzle9\<close> still, with its empty cell (0,2): the
  solution is in the solver's copy. And on the full grid \<open>dup9\<close>, which has two 3s in row 0,
  \<open>solve\<close> returns \<open>True\<close> although no grid involved is a valid Sudoku.
\<close>

theorem caller_grid_not_mutated:
  "init puzzle9 rows9 = (puzzle9 @ puzzle9, [9..<18]) \<and>
   solve 3 (puzzle9 @ puzzle9) [9..<18] = Some (Inr (True, puzzle9 @ solution9)) \<and>
   view (puzzle9 @ solution9) rows9 = puzzle9 \<and>
   cell_at (view (puzzle9 @ solution9) rows9) (0, 2) = 0 \<and>
   \<not> solved (view (puzzle9 @ solution9) rows9) \<and>
   init dup9 rows9 = (dup9 @ dup9, [9..<18]) \<and>
   solve 0 (dup9 @ dup9) [9..<18] = Some (Inr (True, dup9 @ dup9)) \<and>
   \<not> solved (view (dup9 @ dup9) [9..<18]) \<and> \<not> solved (view (dup9 @ dup9) rows9)"
  by code_simp

text \<open>
  C4. On a 9x9 grid, for \<open>row\<close> and \<open>col\<close> in \<open>[0,8]\<close> (and every \<open>num\<close>, so also those of
  \<open>[1,9]\<close>), \<open>is_valid\<close> raises nothing and returns \<open>True\<close> exactly when \<open>num\<close> occurs
  nowhere in row \<open>row\<close>, nowhere in column \<open>col\<close> and nowhere in the 3x3 box whose origin is
  \<open>(row // 3 * 3, col // 3 * 3)\<close>. The method only reads \<open>self.grid\<close>: it has no assignment,
  so its model returns the answer alone and the grid it was given is the grid afterwards.
\<close>

theorem is_valid_iff:
  assumes "wf_grid g" "row < 9" "col < 9"
  shows "is_valid g row col num =
    Inr ((\<forall>c<9. g ! row ! c \<noteq> num) \<and> (\<forall>r<9. g ! r ! col \<noteq> num) \<and>
         (\<forall>r\<in>{row div 3 * 3..<row div 3 * 3 + 3}.
            \<forall>c\<in>{col div 3 * 3..<col div 3 * 3 + 3}. g ! r ! c \<noteq> num))"
  using is_valid_conflict_free [OF assms] unfolding conflict_free_def .

theorem is_valid_iff_witness:
  "wf_grid puzzle9 \<and> (0::nat) < 9 \<and> (2::nat) < 9 \<and> is_valid puzzle9 0 2 4 = Inr True \<and>
   is_valid puzzle9 0 2 6 = Inr False"
proof -
  have 4: "is_valid puzzle9 0 2 4 = Inr True"
    unfolding is_valid_iff [OF wf_puzzle9, of 0 2 4, simplified] by code_simp
  have 6: "is_valid puzzle9 0 2 6 = Inr False"
    unfolding is_valid_iff [OF wf_puzzle9, of 0 2 6, simplified] by code_simp
  show ?thesis
    using wf_puzzle9 4 6 by simp
qed

text \<open>
  C5. On a 9x9 grid, for a cell \<open>(row, col)\<close> of it, \<open>get_domain\<close> raises nothing. For a
  filled cell it returns the empty list; for an empty cell it returns exactly the digits \<open>n\<close>
  of 1..9 with \<open>is_valid(row, col, n)\<close> true, each once and in strictly ascending order.
\<close>

theorem get_domain_spec:
  assumes "wf_grid g" "row < 9" "col < 9"
  shows "\<exists>ds. get_domain g row col = Inr ds \<and> sorted_wrt (<) ds \<and>
      ds = (if g ! row ! col \<noteq> 0 then []
            else filter (\<lambda>n. is_valid g row col n = Inr True) [1..9])"
proof -
  have "filter (\<lambda>n. is_valid g row col n = Inr True) [1..9] = domain_of g row col"
    unfolding domain_of_def by (simp add: is_valid_conflict_free [OF assms])
  then show ?thesis
    using sorted_dom [of g row col] by (simp add: get_domain_wf [OF assms])
qed

theorem get_domain_spec_witness:
  "wf_grid puzzle9 \<and> (0::nat) < 9 \<and> (2::nat) < 9 \<and> get_domain puzzle9 0 2 = Inr [4] \<and>
   get_domain puzzle9 0 0 = Inr []"
proof -
  have e: "puzzle9 ! 0 ! 2 = 0" "puzzle9 ! 0 ! 0 \<noteq> 0"
    by (simp_all add: puzzle9_def)
  have f: "filter (\<lambda>n. is_valid puzzle9 0 2 n = Inr True) [1..9] = [4]"
    by code_simp
  have 1: "get_domain puzzle9 0 2 = Inr [4]"
    using get_domain_spec [OF wf_puzzle9, of 0 2] e(1) f by simp
  have 2: "get_domain puzzle9 0 0 = Inr []"
    using get_domain_spec [OF wf_puzzle9, of 0 0] e(2) by simp
  show ?thesis
    using wf_puzzle9 1 2 by simp
qed

text \<open>
  C6. On a 9x9 grid, \<open>find_mrv_cell\<close> raises nothing; it returns \<open>None\<close> if and only if no
  cell is empty. When it returns \<open>(row, col, domain)\<close>, the cell \<open>(row, col)\<close> is empty,
  \<open>domain\<close> is \<open>get_domain(row, col)\<close> on this grid, no empty cell has a smaller domain, and
  every empty cell before \<open>(row, col)\<close> in row-major order has a strictly larger one: the
  first cell of least domain size.
\<close>

theorem find_mrv_cell_spec:
  assumes "wf_grid g"
  shows "(\<exists>res. find_mrv_cell g = Inr res) \<and>
         ((find_mrv_cell g = Inr None) = (\<forall>r<9. \<forall>c<9. g ! r ! c \<noteq> 0)) \<and>
         (\<forall>row col domain. find_mrv_cell g = Inr (Some (row, col, domain)) \<longrightarrow>
            row < 9 \<and> col < 9 \<and> g ! row ! col = 0 \<and> get_domain g row col = Inr domain \<and>
            (\<forall>r<9. \<forall>c<9. g ! r ! c = 0 \<longrightarrow>
               (\<exists>d. get_domain g r c = Inr d \<and> length domain \<le> length d \<and>
                    (r < row \<or> (r = row \<and> c < col) \<longrightarrow> length domain < length d))))"
proof -
  have allcells: "(\<forall>p\<in>set cells9. cell_at g p \<noteq> 0) = (\<forall>r<9. \<forall>c<9. g ! r ! c \<noteq> 0)"
    by (auto simp: set_cells9 cell_at_def)
  from find_mrv_cell_cases [OF assms] show ?thesis
  proof
    assume "find_mrv_cell g = Inr None \<and> (\<forall>p\<in>set cells9. cell_at g p \<noteq> 0)"
    then show ?thesis
      unfolding allcells by simp
  next
    assume "\<exists>q. mrv_pick g cells9 10 q \<and>
              find_mrv_cell g = Inr (Some (fst q, snd q, domain_of g (fst q) (snd q)))"
    then obtain q where pick: "mrv_pick g cells9 10 q"
      and res: "find_mrv_cell g = Inr (Some (fst q, snd q, domain_of g (fst q) (snd q)))"
      by blast
    note q = mrv_pick_cells9 [OF pick]
    have empty: "g ! fst q ! snd q = 0"
      using q(3) by (simp add: cell_at_def)
    have others: "\<exists>d. get_domain g r c = Inr d \<and> length (domain_of g (fst q) (snd q)) \<le> length d \<and>
        (r < fst q \<or> (r = fst q \<and> c < snd q) \<longrightarrow> length (domain_of g (fst q) (snd q)) < length d)"
      if "r < 9" "c < 9" "g ! r ! c = 0" for r c
    proof -
      have e: "cell_at g (r, c) = 0" using that(3) by (simp add: cell_at_def)
      have 1: "length (domain_of g (fst q) (snd q)) \<le> length (domain_of g r c)"
        using q(4) [of "(r, c)"] that(1,2) e by (simp add: dsize_def)
      have 2: "r < fst q \<or> (r = fst q \<and> c < snd q) \<longrightarrow>
          length (domain_of g (fst q) (snd q)) < length (domain_of g r c)"
        using q(5) [of "(r, c)"] that(1,2) e by (simp add: lex_less_def dsize_def)
      have gd: "get_domain g r c = Inr (domain_of g r c)"
        using that(3) by (simp add: get_domain_wf [OF assms that(1,2)])
      show ?thesis
        by (intro exI [of _ "domain_of g r c"] conjI gd 1 2)
    qed
    have "\<not> (\<forall>r<9. \<forall>c<9. g ! r ! c \<noteq> 0)"
      using q(1,2) empty by blast
    then show ?thesis
      using res q(1,2) empty others get_domain_wf [OF assms q(1,2)] by simp
  qed
qed

theorem find_mrv_cell_spec_witness:
  "wf_grid puzzle9 \<and> find_mrv_cell puzzle9 = Inr (Some (0, 2, [4])) \<and>
   puzzle9 ! 0 ! 2 = 0 \<and> get_domain puzzle9 0 2 = Inr [4] \<and>
   (\<exists>d. get_domain puzzle9 4 4 = Inr d \<and> length [4::int] \<le> length d) \<and>
   find_mrv_cell puzzle9 \<noteq> Inr None"
proof -
  note spec = find_mrv_cell_spec [OF wf_puzzle9]
  from spec find_mrv_cell_puzzle9
  have a: "puzzle9 ! 0 ! 2 = 0" "get_domain puzzle9 0 2 = Inr [4]"
    and b: "\<forall>r<9. \<forall>c<9. puzzle9 ! r ! c = 0 \<longrightarrow>
      (\<exists>d. get_domain puzzle9 r c = Inr d \<and> length [4::int] \<le> length d \<and>
           (r < 0 \<or> (r = 0 \<and> c < 2) \<longrightarrow> length [4::int] < length d))"
    by blast+
  have "puzzle9 ! 4 ! 4 = 0" by (simp add: puzzle9_def)
  with b [rule_format, of 4 4]
  have c: "\<exists>d. get_domain puzzle9 4 4 = Inr d \<and> length [4::int] \<le> length d"
    by simp
  from spec a(1) have d: "find_mrv_cell puzzle9 \<noteq> Inr None"
    by (metis find_mrv_cell_puzzle9 Inr_inject option.distinct(1))
  show ?thesis
    using wf_puzzle9 find_mrv_cell_puzzle9 a c d by simp
qed

text \<open>
  C7. For a solver on a 9x9 grid with no empty cell, \<open>solve\<close> returns \<open>True\<close> at once: it
  returns even when no recursive call at all is allowed (depth 0), it makes no assignment to
  the grid (the record of assignments is empty), and the store is unchanged.
\<close>

theorem solve_full_grid:
  assumes "wf_solver h self" "\<forall>r<9. \<forall>c<9. view h self ! r ! c \<noteq> 0"
  shows "solve 0 h self = Some (Inr (True, h)) \<and> solve d h self = Some (Inr (True, h)) \<and>
    solve_trace d h self = []"
proof -
  have full: "\<forall>p\<in>set cells9. cell_at (view h self) p \<noteq> 0"
    using assms(2) unfolding all_cells_iff [of "\<lambda>v. v \<noteq> 0"] .
  from solve_cases [OF assms(1)] show ?thesis
  proof (elim disjE conjE exE)
    assume "\<forall>d. solve d h self = Some (Inr (True, h)) \<and> solve_trace d h self = []"
    then show ?thesis by simp
  next
    fix r c assume "cand (view h self) r c (domain_of (view h self) r c)"
    then have "(r, c) \<in> set cells9" "cell_at (view h self) (r, c) = 0"
      by (simp_all add: cand_def set_cells9)
    with full show ?thesis by blast
  qed
qed

theorem solve_full_grid_witness:
  "wf_solver solution9 rows9 \<and> solve 0 solution9 rows9 = Some (Inr (True, solution9)) \<and>
   solve_trace 0 solution9 rows9 = []"
proof -
  have w: "wf_solver solution9 rows9" by code_simp
  have "list_all (\<lambda>p. cell_at (view solution9 rows9) p \<noteq> 0) cells9" by code_simp
  then have f: "\<forall>r<9. \<forall>c<9. view solution9 rows9 ! r ! c \<noteq> 0"
    unfolding list_all_iff all_cells_iff [of "\<lambda>v. v \<noteq> 0"] .
  from solve_full_grid [OF w f, of 0] w show ?thesis
    by simp
qed

text \<open>
  C8. For a solver on a 9x9 grid that satisfies the uniqueness invariant (every non-zero
  value at most once per row, per column and per box), the grid satisfies it after every
  assignment that \<open>solve\<close> makes, placements and undos alike, and at the return, whatever
  \<open>solve\<close> returns: no placement conflicts with a value of its row, column or box.
\<close>

theorem solve_keeps_invariant:
  assumes "wf_solver h self" "grid_inv (view h self)"
  shows "(\<forall>h''\<in>set (solve_trace d h self). grid_inv (view h'' self)) \<and>
    (\<forall>b h'. solve d h self = Some (Inr (b, h')) \<longrightarrow> grid_inv (view h' self))"
proof (intro conjI ballI allI impI)
  fix h'' assume "h'' \<in> set (solve_trace d h self)"
  from solve_trace_ok [OF assms(1) this] assms(2) show "grid_inv (view h'' self)"
    by (simp add: step_ok_def)
next
  fix b h' assume sol: "solve d h self = Some (Inr (b, h'))"
  note post = solve_post [OF assms(1) sol]
  show "grid_inv (view h' self)"
  proof (cases b)
    case True
    then show ?thesis using post assms(2) by (simp add: solve_post_def fills_def)
  next
    case False
    then show ?thesis using post assms(2) by (simp add: solve_post_def)
  qed
qed

theorem solve_keeps_invariant_witness:
  "wf_solver puzzle9 rows9 \<and> grid_inv (view puzzle9 rows9) \<and>
   length (solve_trace 3 puzzle9 rows9) = 3 \<and>
   list_all (\<lambda>h''. grid_inv (view h'' rows9)) (solve_trace 3 puzzle9 rows9) \<and>
   solve 3 puzzle9 rows9 = Some (Inr (True, solution9)) \<and> grid_inv (view solution9 rows9)"
proof -
  have i: "grid_inv (view puzzle9 rows9)"
    by (simp add: view_puzzle9 grid_inv_puzzle9)
  have l: "length (solve_trace 3 puzzle9 rows9) = 3" by code_simp
  have s: "solve 3 puzzle9 rows9 = Some (Inr (True, solution9))" by code_simp
  note spec = solve_keeps_invariant [OF wf_solver_puzzle9 i, of 3]
  from spec have t: "list_all (\<lambda>h''. grid_inv (view h'' rows9)) (solve_trace 3 puzzle9 rows9)"
    unfolding list_all_iff by blast
  from spec s have "grid_inv (view solution9 rows9)" by blast
  then show ?thesis
    using wf_solver_puzzle9 i l t s by blast
qed

text \<open>
  C9. For a solver on a 9x9 grid, \<open>solve\<close> returns (it neither raises nor runs out of the
  allowed depth) when the recursion depth is limited to the number of empty cells of the
  grid, which is at most 81. The grid handed to a recursive call is the caller's grid with
  one value of the selected cell's domain written into that (empty) cell, so it has strictly
  fewer empty cells.
\<close>

theorem solve_depth_bound:
  assumes "wf_solver h self"
  shows "empties (view h self) \<le> 81 \<and>
    (\<exists>b h'. solve (empties (view h self)) h self = Some (Inr (b, h'))) \<and>
    (\<forall>row col domain num h1.
       find_mrv_cell (view h self) = Inr (Some (row, col, domain)) \<and> num \<in> set domain \<and>
       setitem h self row col num = Inr h1 \<longrightarrow>
       wf_solver h1 self \<and> empties (view h1 self) < empties (view h self))"
proof (intro conjI allI impI)
  show "empties (view h self) \<le> 81" by (rule empties_le)
  show "\<exists>b h'. solve (empties (view h self)) h self = Some (Inr (b, h'))"
    by (rule solve_returns [OF assms order_refl])
next
  fix row col domain num h1
  assume a: "find_mrv_cell (view h self) = Inr (Some (row, col, domain)) \<and> num \<in> set domain \<and>
       setitem h self row col num = Inr h1"
  then have c: "cand (view h self) row col [num]"
    using cand_member [OF find_mrv_cell_cand [OF wf_solver_view [OF assms]]] by blast
  then have rc: "row < 9" "col < 9" by (simp_all add: cand_def)
  have h1: "h1 = place h self row col num"
    using a by (simp add: setitem_wf [OF assms rc])
  show "wf_solver h1 self"
    unfolding h1 by (rule wf_place [OF assms rc(1)])
  show "empties (view h1 self) < empties (view h self)"
    unfolding h1 by (rule empties_place [OF assms c])
qed

theorem solve_depth_bound_witness:
  "wf_solver puzzle9 rows9 \<and> empties (view puzzle9 rows9) = 3 \<and>
   (\<exists>b h'. solve 3 puzzle9 rows9 = Some (Inr (b, h'))) \<and>
   find_mrv_cell (view puzzle9 rows9) = Inr (Some (0, 2, [4])) \<and>
   setitem puzzle9 rows9 0 2 4 = Inr (place puzzle9 rows9 0 2 4) \<and>
   empties (view (place puzzle9 rows9 0 2 4) rows9) < empties (view puzzle9 rows9)"
proof -
  note spec = solve_depth_bound [OF wf_solver_puzzle9]
  have e: "empties (view puzzle9 rows9) = 3"
    by (simp add: view_puzzle9 empties_puzzle9)
  have f: "find_mrv_cell (view puzzle9 rows9) = Inr (Some (0, 2, [4]))"
    by (simp add: view_puzzle9 find_mrv_cell_puzzle9)
  have s: "setitem puzzle9 rows9 0 2 4 = Inr (place puzzle9 rows9 0 2 4)"
    by (rule setitem_wf [OF wf_solver_puzzle9]) simp_all
  have m: "(4::int) \<in> set [4]" by simp
  from spec have "\<exists>b h'. solve 3 puzzle9 rows9 = Some (Inr (b, h'))"
    by (simp only: e)
  moreover from spec f m s
  have "empties (view (place puzzle9 rows9 0 2 4) rows9) < empties (view puzzle9 rows9)"
    by blast
  ultimately show ?thesis
    using wf_solver_puzzle9 e f s by blast
qed

text \<open>
  C10. For a solver on a 9x9 grid: every cell that is non-zero when \<open>solve\<close> is called holds
  that same value after every assignment \<open>solve\<close> makes and when \<open>solve\<close> returns, be it
  \<open>True\<close> or \<open>False\<close>. So the assignments go to cells that were empty at the call only.
\<close>

theorem solve_keeps_clues:
  assumes "wf_solver h self" "solve d h self = Some (Inr (b, h'))"
  shows "(\<forall>r<9. \<forall>c<9. view h self ! r ! c \<noteq> 0 \<longrightarrow>
            view h' self ! r ! c = view h self ! r ! c) \<and>
    (\<forall>h''\<in>set (solve_trace d h self). \<forall>r<9. \<forall>c<9. view h self ! r ! c \<noteq> 0 \<longrightarrow>
            view h'' self ! r ! c = view h self ! r ! c)"
proof (intro conjI ballI allI impI)
  fix r c :: nat assume rc: "r < 9" "c < 9" and nz: "view h self ! r ! c \<noteq> 0"
  then have p: "(r, c) \<in> set cells9" "cell_at (view h self) (r, c) \<noteq> 0"
    by (simp_all add: set_cells9 cell_at_def)
  note post = solve_post [OF assms]
  show "view h' self ! r ! c = view h self ! r ! c"
  proof (cases b)
    case True
    then have "fills (view h self) (view h' self)"
      using post by (simp add: solve_post_def)
    then have "cell_at (view h' self) (r, c) = cell_at (view h self) (r, c)"
      using p by (simp add: fills_def)
    then show ?thesis by (simp add: cell_at_def)
  next
    case False
    then show ?thesis using post by (simp add: solve_post_def)
  qed
next
  fix h'' r c assume t: "h'' \<in> set (solve_trace d h self)"
    and rc: "r < 9" "c < 9" and nz: "view h self ! r ! c \<noteq> 0"
  then have p: "(r, c) \<in> set cells9" "cell_at (view h self) (r, c) \<noteq> 0"
    by (simp_all add: set_cells9 cell_at_def)
  from solve_trace_ok [OF assms(1) t]
  have "cell_at (view h'' self) (r, c) = cell_at (view h self) (r, c)"
    using p by (simp add: step_ok_def)
  then show "view h'' self ! r ! c = view h self ! r ! c"
    by (simp add: cell_at_def)
qed

theorem solve_keeps_clues_witness:
  "wf_solver stuck9 rows9 \<and> solve 2 stuck9 rows9 = Some (Inr (False, stuck9)) \<and>
   view stuck9 rows9 ! 1 ! 0 = 3 \<and> length (solve_trace 2 stuck9 rows9) = 8 \<and>
   list_all (\<lambda>h''. view h'' rows9 ! 1 ! 0 = 3) (solve_trace 2 stuck9 rows9)"
proof -
  have w: "wf_solver stuck9 rows9" by code_simp
  have s: "solve 2 stuck9 rows9 = Some (Inr (False, stuck9))" by code_simp
  have v: "view stuck9 rows9 ! 1 ! 0 = 3" by code_simp
  have l: "length (solve_trace 2 stuck9 rows9) = 8" by code_simp
  note spec = solve_keeps_clues [OF w s]
  have "\<forall>h''\<in>set (solve_trace 2 stuck9 rows9). view h'' rows9 ! 1 ! 0 = view stuck9 rows9 ! 1 ! 0"
  proof
    fix h'' assume m: "h'' \<in> set (solve_trace 2 stuck9 rows9)"
    from spec [THEN conjunct2, rule_format, OF m, of 1 0] v
    show "view h'' rows9 ! 1 ! 0 = view stuck9 rows9 ! 1 ! 0"
      by simp
  qed
  then have "list_all (\<lambda>h''. view h'' rows9 ! 1 ! 0 = 3) (solve_trace 2 stuck9 rows9)"
    unfolding list_all_iff v .
  then show ?thesis
    using w s v l by blast
qed

end
